theory Spec2Isabelle
  imports Complex_Main "HOL-Library.Multiset" "HOL-Library.Word"
begin

section \<open>Errors\<close>

text \<open>
  Every \<^verbatim>\<open>raise\<close> of the two source files and every failure of a library routine
  they call is a value of this type. \<open>ValueError\<close> carries the message of the source's own
  \<^verbatim>\<open>raise ValueError(...)\<close> (without the interpolated shape list); \<open>FrameworkError\<close>
  stands for a failure reported by the tensor library (shape inference, feeding, checkpoint
  input and output), which the source never catches.
\<close>

datatype error =
    ValueError string
  | IndexError
  | TypeError
  | NameError
  | FrameworkError

section \<open>Tensors and the library operations the source calls\<close>

text \<open>
  A tensor is its shape and its elements, read by a multi-index. The element type is the
  type parameter: the \<^verbatim>\<open>dtype\<close> argument of the source selects it.
\<close>

record 'a tensor =
  shape :: "nat list"
  data :: "nat list \<Rightarrow> 'a"

definition rank :: "'a tensor \<Rightarrow> nat" where
  "rank t = length (shape t)"

definition in_range :: "nat list \<Rightarrow> nat list \<Rightarrow> bool" where
  "in_range shp idx \<longleftrightarrow> list_all2 (<) idx shp"

text \<open>\<^verbatim>\<open>array_ops.zeros(shape, dtype)\<close>\<close>

definition array_ops_zeros :: "nat list \<Rightarrow> 'a::zero tensor" where
  "array_ops_zeros shp = \<lparr>shape = shp, data = (\<lambda>_. 0)\<rparr>"

text \<open>Element-wise application of a unary kernel (sigmoid, tanh, adding a Python scalar).\<close>

definition tensor_map :: "('a \<Rightarrow> 'b) \<Rightarrow> 'a tensor \<Rightarrow> 'b tensor" where
  "tensor_map f t = \<lparr>shape = shape t, data = (\<lambda>idx. f (data t idx))\<rparr>"

text \<open>
  Binary element-wise operators broadcast: shapes are aligned at their last axis, and two
  extents are compatible when they are equal or one of them is 1. \<open>bc_rev\<close> works on the
  reversed shapes.
\<close>

fun bc_rev :: "nat list \<Rightarrow> nat list \<Rightarrow> nat list option" where
  "bc_rev [] ys = Some ys"
| "bc_rev (x # xs) [] = Some (x # xs)"
| "bc_rev (x # xs) (y # ys) =
     (if x = y \<or> y = 1 then map_option ((#) x) (bc_rev xs ys)
      else if x = 1 then map_option ((#) y) (bc_rev xs ys)
      else None)"

definition broadcast_shape :: "nat list \<Rightarrow> nat list \<Rightarrow> nat list option" where
  "broadcast_shape s t = map_option rev (bc_rev (rev s) (rev t))"

text \<open>The element of an operand of shape \<open>shp\<close> that position \<open>idx\<close> of the result reads.\<close>

definition bcast_index :: "nat list \<Rightarrow> nat list \<Rightarrow> nat list" where
  "bcast_index shp idx =
     map2 (\<lambda>d i. if d = 1 then 0 else i) shp (drop (length idx - length shp) idx)"

definition tensor_binop :: "('a \<Rightarrow> 'b \<Rightarrow> 'c) \<Rightarrow> 'a tensor \<Rightarrow> 'b tensor \<Rightarrow> error + 'c tensor" where
  "tensor_binop f a b =
     (case broadcast_shape (shape a) (shape b) of
        None \<Rightarrow> Inl FrameworkError
      | Some s \<Rightarrow>
          Inr \<lparr>shape = s,
               data = (\<lambda>idx. f (data a (bcast_index (shape a) idx))
                                (data b (bcast_index (shape b) idx)))\<rparr>)"

text \<open>An axis argument may be negative, counting from the last axis.\<close>

definition norm_axis :: "int \<Rightarrow> nat \<Rightarrow> nat option" where
  "norm_axis ax r =
     (if 0 \<le> ax \<and> ax < int r then Some (nat ax)
      else if - int r \<le> ax \<and> ax < 0 then Some (nat (ax + int r))
      else None)"

text \<open>
  \<^verbatim>\<open>array_ops.concat(values, axis)\<close>: all values have one rank and agree in every
  extent but the one of \<open>axis\<close>.
\<close>

definition concat2 :: "nat \<Rightarrow> 'a tensor \<Rightarrow> 'a tensor \<Rightarrow> error + 'a tensor" where
  "concat2 ax a b =
     (if length (shape a) = length (shape b) \<and> ax < length (shape a)
         \<and> (shape a)[ax := 0] = (shape b)[ax := 0]
      then Inr \<lparr>shape = (shape a)[ax := shape a ! ax + shape b ! ax],
                data = (\<lambda>idx. if idx ! ax < shape a ! ax then data a idx
                               else data b (idx[ax := idx ! ax - shape a ! ax]))\<rparr>
      else Inl FrameworkError)"

fun concat_from :: "nat \<Rightarrow> 'a tensor \<Rightarrow> 'a tensor list \<Rightarrow> error + 'a tensor" where
  "concat_from ax acc [] = Inr acc"
| "concat_from ax acc (t # ts) =
     (case concat2 ax acc t of Inl e \<Rightarrow> Inl e | Inr acc' \<Rightarrow> concat_from ax acc' ts)"

definition array_ops_concat :: "int \<Rightarrow> 'a tensor list \<Rightarrow> error + 'a tensor" where
  "array_ops_concat axis vals =
     (case vals of
        [] \<Rightarrow> Inl FrameworkError
      | t # ts \<Rightarrow>
          (case norm_axis axis (rank t) of
             None \<Rightarrow> Inl FrameworkError
           | Some ax \<Rightarrow> concat_from ax t ts))"

text \<open>
  \<^verbatim>\<open>array_ops.split(value, num_or_size_splits, axis)\<close> with an integer number of
  parts: the extent of \<open>axis\<close> must be a multiple of it, and part \<open>j\<close> is the \<open>j\<close>-th block
  of that axis.
\<close>

definition array_ops_split :: "'a tensor \<Rightarrow> nat \<Rightarrow> int \<Rightarrow> error + 'a tensor list" where
  "array_ops_split val n axis =
     (case norm_axis axis (rank val) of
        None \<Rightarrow> Inl FrameworkError
      | Some ax \<Rightarrow>
          if n = 0 \<or> shape val ! ax mod n \<noteq> 0 then Inl FrameworkError
          else
            let m = shape val ! ax div n
            in Inr (map (\<lambda>j. \<lparr>shape = (shape val)[ax := m],
                                data = (\<lambda>idx. data val (idx[ax := idx ! ax + j * m]))\<rparr>)
                        [0..<n]))"

text \<open>
  The numeric kernels of the library are parameters of the model: the two activation
  functions, the value of a convolution at an output position, and the default initializer
  of a new variable. Addition and multiplication of elements are the operations of the
  element type; no law about them is used.
\<close>

datatype padding = SAME | VALID

datatype conv_op = conv1d | conv2d | conv3d

datatype strides = StrideInt nat | StrideList "nat list"

record 'a nn_kernels =
  sigmoid_k :: "'a \<Rightarrow> 'a"
  tanh_k :: "'a \<Rightarrow> 'a"
  conv_k :: "conv_op \<Rightarrow> 'a tensor \<Rightarrow> 'a tensor \<Rightarrow> nat list \<Rightarrow> padding \<Rightarrow> nat list \<Rightarrow> 'a"
  init_k :: "string \<Rightarrow> nat list \<Rightarrow> nat list \<Rightarrow> 'a"

definition math_ops_sigmoid :: "'a nn_kernels \<Rightarrow> 'a tensor \<Rightarrow> 'a tensor" where
  "math_ops_sigmoid K t = tensor_map (sigmoid_k K) t"

definition math_ops_tanh :: "'a nn_kernels \<Rightarrow> 'a tensor \<Rightarrow> 'a tensor" where
  "math_ops_tanh K t = tensor_map (tanh_k K) t"

definition conv_ndim :: "conv_op \<Rightarrow> nat" where
  "conv_ndim op = (case op of conv1d \<Rightarrow> 1 | conv2d \<Rightarrow> 2 | conv3d \<Rightarrow> 3)"

text \<open>
  The strides of the spatial axes: \<^verbatim>\<open>conv1d\<close> takes one integer, \<^verbatim>\<open>conv2d\<close> and
  \<^verbatim>\<open>conv3d\<close> a list with one entry per axis of the input whose batch and channel
  entries are 1.
\<close>

definition spatial_strides :: "conv_op \<Rightarrow> strides \<Rightarrow> nat list option" where
  "spatial_strides op st =
     (case st of
        StrideInt s \<Rightarrow> if op = conv1d \<and> 0 < s then Some [s] else None
      | StrideList ss \<Rightarrow>
          if op \<noteq> conv1d \<and> length ss = conv_ndim op + 2 \<and> hd ss = 1 \<and> last ss = 1
             \<and> (\<forall>s \<in> set ss. 0 < s)
          then Some (take (conv_ndim op) (tl ss)) else None)"

definition out_extent :: "padding \<Rightarrow> nat \<Rightarrow> nat \<Rightarrow> nat \<Rightarrow> nat" where
  "out_extent p n k s =
     (case p of
        SAME \<Rightarrow> (n + s - 1) div s
      | VALID \<Rightarrow> (n + s - k) div s)"

text \<open>
  Applying a convolution: input \<open>[batch, spatial..., in]\<close>, filter
  \<open>[extent..., in, out]\<close>, result \<open>[batch, spatial'..., out]\<close>.
\<close>

definition conv_apply ::
  "'a nn_kernels \<Rightarrow> conv_op \<Rightarrow> 'a tensor \<Rightarrow> 'a tensor \<Rightarrow> strides \<Rightarrow> padding \<Rightarrow> error + 'a tensor" where
  "conv_apply K op x w st p =
     (let nd = conv_ndim op in
      case spatial_strides op st of
        None \<Rightarrow> Inl FrameworkError
      | Some ss \<Rightarrow>
          if rank x = nd + 2 \<and> rank w = nd + 2 \<and> shape w ! nd = shape x ! (nd + 1)
          then Inr \<lparr>shape = hd (shape x)
                            # map (\<lambda>i. out_extent p (shape x ! (i + 1)) (shape w ! i) (ss ! i)) [0..<nd]
                            @ [shape w ! (nd + 1)],
                    data = conv_k K op x w ss p\<rparr>
          else Inl FrameworkError)"

text \<open>
  \<^verbatim>\<open>vs.get_variable(name, shape, dtype, initializer)\<close> in a scope that permits reuse
  (the cell runs inside the scope its base class opens): the first request creates the
  variable from the initializer, a later one returns it and insists on the same shape.
\<close>

type_synonym 'a var_scope = "string \<rightharpoonup> 'a tensor"

definition get_variable ::
  "'a var_scope \<Rightarrow> string \<Rightarrow> nat list \<Rightarrow> (nat list \<Rightarrow> 'a) \<Rightarrow> error + ('a tensor \<times> 'a var_scope)" where
  "get_variable vs name shp init =
     (case vs name of
        None \<Rightarrow> (let v = \<lparr>shape = shp, data = init\<rparr> in Inr (v, vs(name \<mapsto> v)))
      | Some v \<Rightarrow> if shape v = shp then Inr (v, vs) else Inl FrameworkError)"

section \<open>convolutional\_lstm.py\<close>

text \<open>
  A name of the source that begins with an underscore is written without it:
  \<^verbatim>\<open>_conv\<close> is \<open>conv\<close>, the attribute \<^verbatim>\<open>_conv_ndims\<close> is the field
  \<open>conv_ndims\<close>.
\<close>

subsection \<open>ConvLSTMCell\<close>

record 'a ConvLSTMCell =
  conv_ndims :: nat
  input_shape :: "nat list"
  output_channels :: nat
  kernel_shape :: "nat list"
  use_bias :: bool
  forget_bias :: 'a
  skip_connection :: bool
  total_output_channels :: nat

text \<open>
  \<^verbatim>\<open>__init__\<close>. The only statement that can fail is \<^verbatim>\<open>self._input_shape[-1]\<close>, on
  an empty \<open>input_shape\<close>. The arguments \<^verbatim>\<open>initializers\<close> and \<^verbatim>\<open>name\<close> are not read
  by any method of the file.
\<close>

definition ConvLSTMCell_init ::
  "nat list \<Rightarrow> nat \<Rightarrow> nat list \<Rightarrow> bool \<Rightarrow> bool \<Rightarrow> 'a \<Rightarrow> error + 'a ConvLSTMCell" where
  "ConvLSTMCell_init input_shape' output_channels' kernel_shape' use_bias' skip_connection' forget_bias' =
     (let c = \<lparr>conv_ndims = length kernel_shape',
               input_shape = input_shape',
               output_channels = output_channels',
               kernel_shape = kernel_shape',
               use_bias = use_bias',
               forget_bias = forget_bias',
               skip_connection = skip_connection',
               total_output_channels = output_channels'\<rparr>
      in if skip_connection c
         then (if input_shape c = [] then Inl IndexError
               else Inr (c\<lparr>total_output_channels := total_output_channels c + last (input_shape c)\<rparr>))
         else Inr c)"

definition output_size :: "'a ConvLSTMCell \<Rightarrow> nat list" where
  "output_size c = butlast (input_shape c) @ [total_output_channels c]"

definition state_size :: "'a ConvLSTMCell \<Rightarrow> nat list" where
  "state_size c = butlast (input_shape c) @ [output_channels c]"

definition zero_state :: "'a ConvLSTMCell \<Rightarrow> nat \<Rightarrow> ('a::zero) tensor \<times> 'a tensor" where
  "zero_state c batch_size =
     (let shp = [batch_size] @ butlast (input_shape c) @ [total_output_channels c];
          zero_cell = array_ops_zeros shp;
          zero_hidden = array_ops_zeros shp
      in (zero_cell, zero_hidden))"

subsection \<open>\_conv\<close>

text \<open>The loop over \<^verbatim>\<open>shapes\<close>, which checks the ranks and adds up the channel extents.\<close>

fun check_shapes :: "nat list \<Rightarrow> nat list list \<Rightarrow> nat \<Rightarrow> error + nat" where
  "check_shapes first [] depth = Inr depth"
| "check_shapes first (s # ss) depth =
     (if length s \<notin> {3, 4, 5}
      then Inl (ValueError ''Conv Linear expects 3D, 4D or 5D arguments'')
      else if length s \<noteq> length first
      then Inl (ValueError ''Conv Linear expects all args to be of same Dimensiton'')
      else check_shapes first ss (depth + last s))"

definition select_conv :: "nat \<Rightarrow> error + (conv_op \<times> strides)" where
  "select_conv shape_length =
     (if shape_length = 3 then Inr (conv1d, StrideInt 1)
      else if shape_length = 4 then Inr (conv2d, StrideList (replicate shape_length 1))
      else if shape_length = 5 then Inr (conv3d, StrideList (replicate shape_length 1))
      else Inl NameError)"

definition add_bias ::
  "'a::plus tensor \<Rightarrow> nat \<Rightarrow> bool \<Rightarrow> 'a \<Rightarrow> 'a var_scope \<Rightarrow> error + ('a tensor \<times> 'a var_scope)" where
  "add_bias res num_features bias bias_start vs =
     (if \<not> bias then Inr (res, vs)
      else
        case get_variable vs ''biases'' [num_features] (\<lambda>_. bias_start) of
          Inl e \<Rightarrow> Inl e
        | Inr (bias_term, vs') \<Rightarrow>
            (case tensor_binop (+) res bias_term of
               Inl e \<Rightarrow> Inl e
             | Inr r \<Rightarrow> Inr (r, vs')))"

definition conv ::
  "'a::plus nn_kernels \<Rightarrow> 'a tensor list \<Rightarrow> nat list \<Rightarrow> nat \<Rightarrow> bool \<Rightarrow> 'a \<Rightarrow> 'a var_scope
     \<Rightarrow> error + ('a tensor \<times> 'a var_scope)" where
  "conv K args filter_size num_features bias bias_start vs =
     (let shapes = map shape args in
      case shapes of
        [] \<Rightarrow> Inl IndexError
      | first # _ \<Rightarrow>
          let shape_length = length first in
          case check_shapes first shapes 0 of
            Inl e \<Rightarrow> Inl e
          | Inr total_arg_size_depth \<Rightarrow>
              (case select_conv shape_length of
                 Inl e \<Rightarrow> Inl e
               | Inr (conv_op, strides) \<Rightarrow>
                   (case get_variable vs ''kernel''
                           (filter_size @ [total_arg_size_depth, num_features])
                           (init_k K ''kernel'' (filter_size @ [total_arg_size_depth, num_features])) of
                      Inl e \<Rightarrow> Inl e
                    | Inr (kernel', vs') \<Rightarrow>
                        (case (if length args = 1 then Inr (hd args)
                               else array_ops_concat (int shape_length - 1) args) of
                           Inl e \<Rightarrow> Inl e
                         | Inr x \<Rightarrow>
                             (case conv_apply K conv_op x kernel' strides SAME of
                                Inl e \<Rightarrow> Inl e
                              | Inr res \<Rightarrow> add_bias res num_features bias bias_start vs')))))"

subsection \<open>ConvLSTMCell.call\<close>

definition call ::
  "'a::{plus,times,zero} nn_kernels \<Rightarrow> 'a ConvLSTMCell \<Rightarrow> 'a tensor \<Rightarrow> 'a tensor \<times> 'a tensor \<Rightarrow> 'a var_scope
     \<Rightarrow> error + (('a tensor \<times> ('a tensor \<times> 'a tensor)) \<times> 'a var_scope)" where
  "call K c inputs state vs =
     (case state of (cell, hidden) \<Rightarrow>
      case conv K [inputs, hidden] (kernel_shape c) (4 * output_channels c) (use_bias c) 0 vs of
        Inl e \<Rightarrow> Inl e
      | Inr (new_hidden, vs') \<Rightarrow>
          (case array_ops_split new_hidden 4 (int (conv_ndims c) + 1) of
             Inl e \<Rightarrow> Inl e
           | Inr gates \<Rightarrow>
               (case gates of
                  [input_gate, new_input, forget_gate, output_gate] \<Rightarrow>
                    (case tensor_binop (*)
                            (math_ops_sigmoid K (tensor_map (\<lambda>x. x + forget_bias c) forget_gate)) cell of
                       Inl e \<Rightarrow> Inl e
                     | Inr new_cell0 \<Rightarrow>
                         (case tensor_binop (*) (math_ops_sigmoid K input_gate)
                                 (math_ops_tanh K new_input) of
                            Inl e \<Rightarrow> Inl e
                          | Inr incr \<Rightarrow>
                              (case tensor_binop (+) new_cell0 incr of
                                 Inl e \<Rightarrow> Inl e
                               | Inr new_cell \<Rightarrow>
                                   (case tensor_binop (*) (math_ops_tanh K new_cell)
                                           (math_ops_sigmoid K output_gate) of
                                      Inl e \<Rightarrow> Inl e
                                    | Inr output0 \<Rightarrow>
                                        (case (if skip_connection c
                                               then array_ops_concat (- 1) [output0, inputs]
                                               else Inr output0) of
                                           Inl e \<Rightarrow> Inl e
                                         | Inr output \<Rightarrow>
                                             Inr ((output, (new_cell, output)), vs'))))))
                | _ \<Rightarrow> Inl (ValueError ''unpack''))))"

section \<open>tfmodel.py\<close>

subsection \<open>The array operations the harness calls\<close>

text \<open>
  Arrays of the numeric library are tensors as above. \<^verbatim>\<open>len(a)\<close> is the first
  extent; an array of rank 0 has none.
\<close>

definition np_len :: "'a tensor \<Rightarrow> error + nat" where
  "np_len a = (case shape a of [] \<Rightarrow> Inl TypeError | n # _ \<Rightarrow> Inr n)"

text \<open>
  \<^verbatim>\<open>a[idxs]\<close> with a sequence of integers selects along the first axis; an index
  \<open>i\<close> with \<open>- n \<le> i < 0\<close> counts from the end, any other index outside \<open>0 \<le> i < n\<close>
  raises.
\<close>

definition wrap_index :: "nat \<Rightarrow> int \<Rightarrow> nat" where
  "wrap_index n i = (if i < 0 then nat (i + int n) else nat i)"

definition np_take :: "'a tensor \<Rightarrow> int list \<Rightarrow> error + 'a tensor" where
  "np_take a idxs =
     (case shape a of
        [] \<Rightarrow> Inl IndexError
      | n # rest \<Rightarrow>
          if list_all (\<lambda>i. - int n \<le> i \<and> i < int n) idxs
          then Inr \<lparr>shape = length idxs # rest,
                    data = (\<lambda>idx. data a (wrap_index n (idxs ! hd idx) # tl idx))\<rparr>
          else Inl IndexError)"

text \<open>
  \<^verbatim>\<open>np.r_[tuple(indices)]\<close> joins the integers into one index array; it has nothing
  to join when the tuple is empty, and raises.
\<close>

definition np_r :: "int list \<Rightarrow> error + int list" where
  "np_r indices =
     (if indices = [] then Inl (ValueError ''need at least one array to concatenate'')
      else Inr indices)"

text \<open>
  \<^verbatim>\<open>np.empty(shape, dtype)\<close> leaves the elements uninitialised: they are whatever
  \<open>junk\<close> says.
\<close>

definition np_empty :: "nat list \<Rightarrow> (nat list \<Rightarrow> 'a) \<Rightarrow> 'a tensor" where
  "np_empty shp junk = \<lparr>shape = shp, data = junk\<rparr>"

text \<open>Element \<open>i\<close> along the first axis: what iterating over \<open>a\<close> yields, and \<^verbatim>\<open>a[i]\<close>.\<close>

definition np_row :: "'a tensor \<Rightarrow> nat \<Rightarrow> 'a tensor" where
  "np_row a i = \<lparr>shape = tl (shape a), data = (\<lambda>idx. data a (i # idx))\<rparr>"

definition np_getitem :: "'a tensor \<Rightarrow> nat \<Rightarrow> error + 'a tensor" where
  "np_getitem a i =
     (case shape a of
        [] \<Rightarrow> Inl IndexError
      | n # _ \<Rightarrow> if i < n then Inr (np_row a i) else Inl IndexError)"

text \<open>The Python list \<^verbatim>\<open>[image]\<close>, converted to an array when it is fed.\<close>

definition np_batch_of_one :: "'a tensor \<Rightarrow> 'a tensor" where
  "np_batch_of_one image' = \<lparr>shape = 1 # shape image', data = (\<lambda>idx. data image' (tl idx))\<rparr>"

text \<open>\<^verbatim>\<open>a[i] = v\<close>: \<open>v\<close> is broadcast to the shape of a row of \<open>a\<close>.\<close>

definition np_setitem :: "'a tensor \<Rightarrow> nat \<Rightarrow> 'a tensor \<Rightarrow> error + 'a tensor" where
  "np_setitem a i v =
     (case shape a of
        [] \<Rightarrow> Inl IndexError
      | n # rest \<Rightarrow>
          if \<not> i < n then Inl IndexError
          else if length (shape v) \<le> length rest \<and> broadcast_shape rest (shape v) = Some rest
          then Inr \<lparr>shape = shape a,
                    data = (\<lambda>idx. if idx \<noteq> [] \<and> hd idx = i
                                   then data v (bcast_index (shape v) (tl idx))
                                   else data a idx)\<rparr>
          else Inl (ValueError ''could not broadcast input array''))"

subsection \<open>The random source and \<^verbatim>\<open>random.shuffle\<close>\<close>

text \<open>
  The generator is an unbounded sequence of draws and a position in it; asking for a number
  below \<open>n\<close> consumes one draw. \<^verbatim>\<open>random.shuffle(x)\<close> walks \<open>i\<close> from the last
  position down to 1 and swaps \<open>x[i]\<close> with \<open>x[j]\<close> for a fresh \<open>j \<le> i\<close>.
\<close>

record rng =
  draws :: "nat \<Rightarrow> nat"
  pos :: nat

definition randbelow :: "rng \<Rightarrow> nat \<Rightarrow> nat \<times> rng" where
  "randbelow r n = (draws r (pos r) mod n, r\<lparr>pos := pos r + 1\<rparr>)"

fun shuffle_loop :: "rng \<Rightarrow> 'a list \<Rightarrow> nat list \<Rightarrow> 'a list \<times> rng" where
  "shuffle_loop r x [] = (x, r)"
| "shuffle_loop r x (i # rest) =
     (case randbelow r (i + 1) of
        (j, r') \<Rightarrow> shuffle_loop r' (x[i := x ! j, j := x ! i]) rest)"

definition shuffle :: "rng \<Rightarrow> 'a list \<Rightarrow> 'a list \<times> rng" where
  "shuffle r x = shuffle_loop r x (rev [1..<length x])"

subsection \<open>misc.chunks\<close>

text \<open>
  Modelled from the spec: \<^verbatim>\<open>misc.chunks\<close> is imported by \<^verbatim>\<open>tfmodel.py\<close> and is
  not among the source files. The specification says that training ``partitions the shuffled
  indices into consecutive fixed-size chunks (batches) --- the final chunk may be smaller than
  the configured batch size if the count does not divide evenly''. The specification says
  nothing about a chunk size of 0; the model then yields no chunk.
\<close>

fun chunks :: "'a list \<Rightarrow> nat \<Rightarrow> 'a list list" where
  "chunks xs n = (if n = 0 \<or> xs = [] then [] else take n xs # chunks (drop n xs) n)"

declare chunks.simps [simp del]

subsection \<open>The session, the saver and the model object\<close>

text \<open>
  A session holds the current value of every variable of the graph, by name, and the value
  of the variable \<^verbatim>\<open>step\<close>, which \<^verbatim>\<open>_build_model\<close> creates as
  \<^verbatim>\<open>tf.Variable(0)\<close>: a signed integer of 32 bits, whose arithmetic wraps around, read
  as a signed number by \<open>sint\<close>. The network that a subclass builds in
  \<^verbatim>\<open>_build_network\<close>, and the update that one run of the optimizer makes, are
  parameters: \<open>network\<close> maps the variables and a batch of images to the logits, and
  \<open>train_op\<close> maps the session and a batch to the merged summary and the new values of the
  variables. Either may fail inside the library.
\<close>

record 'a session =
  variables :: "(string \<times> 'a tensor) list"
  step :: "32 word"

record ('a, 'm) graph_ops =
  network :: "(string \<times> 'a tensor) list \<Rightarrow> 'a tensor \<Rightarrow> error + 'a tensor"
  train_op :: "'a session \<Rightarrow> 'a tensor \<Rightarrow> bool tensor \<Rightarrow> error + ('m \<times> (string \<times> 'a tensor) list)"

record 'a TFModel =
  session :: "'a session"
  height :: nat
  width :: nat
  depth :: nat
  epochs :: nat
  batch_size :: nat
  log_path :: string

text \<open>
  A value fed for a placeholder must have the placeholder's shape, where the placeholder
  leaves the batch extent open (\<^verbatim>\<open>_build_inputs\<close>).
\<close>

definition feed_ok :: "nat list \<Rightarrow> 'b tensor \<Rightarrow> bool" where
  "feed_ok inner v \<longleftrightarrow> shape v \<noteq> [] \<and> tl (shape v) = inner"

text \<open>
  \<^verbatim>\<open>self.pred_labels = tf.greater(self.logits, 0)\<close>, evaluated by
  \<^verbatim>\<open>session.run(self.pred_labels, {self.images: x})\<close>.
\<close>

definition run_pred_labels ::
  "('a::{zero,ord}, 'm) graph_ops \<Rightarrow> 'a TFModel \<Rightarrow> 'a tensor \<Rightarrow> error + bool tensor" where
  "run_pred_labels G m x =
     (if \<not> feed_ok [height m, width m, depth m] x then Inl FrameworkError
      else
        case network G (variables (session m)) x of
          Inl e \<Rightarrow> Inl e
        | Inr logits \<Rightarrow> Inr (tensor_map (\<lambda>l. 0 < l) logits))"

text \<open>
  \<^verbatim>\<open>session.run([self.summary, self.optimizer], {self.images: x, self.target_labels: y})\<close>:
  one step of the optimizer, which was built with \<^verbatim>\<open>global_step=step\<close> and so adds
  one to \<^verbatim>\<open>step\<close>, in 32-bit arithmetic.
\<close>

definition run_optimizer ::
  "('a, 'm) graph_ops \<Rightarrow> 'a TFModel \<Rightarrow> 'a tensor \<Rightarrow> bool tensor \<Rightarrow> error + ('m \<times> 'a TFModel)" where
  "run_optimizer G m x y =
     (if \<not> feed_ok [height m, width m, depth m] x \<or> \<not> feed_ok [height m, width m] y
      then Inl FrameworkError
      else
        case train_op G (session m) x y of
          Inl e \<Rightarrow> Inl e
        | Inr (summary, vars') \<Rightarrow>
            Inr (summary, m\<lparr>session := \<lparr>variables = vars', step = step (session m) + 1\<rparr>\<rparr>))"

text \<open>
  \<^verbatim>\<open>tf.train.Saver\<close>: \<open>save\<close> stores the session's values under a location, if the
  location can be written; \<open>restore\<close> reads, for every variable of the graph, the value
  stored under its name, and fails when the location holds nothing, lacks a name, or holds
  a value of another shape.
\<close>

type_synonym 'a checkpoints = "string \<rightharpoonup> 'a session"

definition saver_save ::
  "(string \<Rightarrow> bool) \<Rightarrow> 'a checkpoints \<Rightarrow> 'a session \<Rightarrow> string \<Rightarrow> error + 'a checkpoints" where
  "saver_save writable fs s location =
     (if writable location then Inr (fs(location \<mapsto> s)) else Inl FrameworkError)"

definition saver_restore :: "'a checkpoints \<Rightarrow> 'a session \<Rightarrow> string \<Rightarrow> error + 'a session" where
  "saver_restore fs s location =
     (case fs location of
        None \<Rightarrow> Inl FrameworkError
      | Some ck \<Rightarrow>
          if list_all (\<lambda>(name, v). case map_of (variables ck) name of
                                     None \<Rightarrow> False
                                   | Some v' \<Rightarrow> shape v' = shape v) (variables s)
          then Inr \<lparr>variables = map (\<lambda>(name, v). (name, the (map_of (variables ck) name)))
                                   (variables s),
                    step = step ck\<rparr>
          else Inl FrameworkError)"

subsection \<open>TFModel.train\<close>

text \<open>
  What \<^verbatim>\<open>train\<close> reads and changes besides the session: the Python lists
  (\<open>heap\<close>, a list object per address), the random generator, the lines printed, the
  records given to the summary writer (a summary and the integer that
  \<^verbatim>\<open>tf.train.global_step\<close> reads from \<^verbatim>\<open>step\<close>), which directories can be
  written, and \<open>fed\<close>, the frames of every \<^verbatim>\<open>session.run\<close> request in the order
  they were made.
\<close>

record 'm world =
  heap :: "int list list"
  random :: rng
  stdout :: "string list"
  writer :: "('m \<times> int) list"
  fed :: "int list list"
  can_write :: "string \<Rightarrow> bool"

fun str_nat :: "nat \<Rightarrow> string" where
  "str_nat n = (if n < 10 then [char_of (48 + n)] else str_nat (n div 10) @ [char_of (48 + n mod 10)])"

declare str_nat.simps [simp del]

definition print :: "string list \<Rightarrow> 'm world \<Rightarrow> 'm world" where
  "print words w = w\<lparr>stdout := stdout w @ [concat (case words of [] \<Rightarrow> [] | x # xs \<Rightarrow> x # map ((@) '' '') xs)]\<rparr>"

text \<open>\<^verbatim>\<open>list(x)\<close> and \<^verbatim>\<open>list(range(n))\<close>: a new list object.\<close>

definition new_list :: "int list \<Rightarrow> 'm world \<Rightarrow> nat \<times> 'm world" where
  "new_list xs w = (length (heap w), w\<lparr>heap := heap w @ [xs]\<rparr>)"

text \<open>The loop over \<^verbatim>\<open>enumerate(batches, 1)\<close>.\<close>

fun run_batches ::
  "('a, 'm) graph_ops \<Rightarrow> 'a tensor \<Rightarrow> bool tensor \<Rightarrow> (nat \<times> int list) list
     \<Rightarrow> 'a TFModel \<times> 'm world \<Rightarrow> error + ('a TFModel \<times> 'm world)" where
  "run_batches G images labels [] (m, w) = Inr (m, w)"
| "run_batches G images labels ((i, frames) # rest) (m, w) =
     (let w1 = (if i mod 10 = 0 then print [''batch'', str_nat i] w else w) in
      case np_take images frames of
        Inl e \<Rightarrow> Inl e
      | Inr x \<Rightarrow>
          (case np_take labels frames of
             Inl e \<Rightarrow> Inl e
           | Inr y \<Rightarrow>
               (case run_optimizer G m x y of
                  Inl e \<Rightarrow> Inl e
                | Inr (summary, m') \<Rightarrow>
                    run_batches G images labels rest
                      (m', w1\<lparr>writer := writer w1 @ [(summary, sint (step (session m')))],
                               fed := fed w1 @ [frames]\<rparr>))))"

text \<open>The loop over \<^verbatim>\<open>range(epochs)\<close>; \<open>indices\<close> is the address of the working list.\<close>

fun run_epochs ::
  "('a, 'm) graph_ops \<Rightarrow> 'a tensor \<Rightarrow> bool tensor \<Rightarrow> nat \<Rightarrow> nat \<Rightarrow> nat list
     \<Rightarrow> 'a TFModel \<times> 'm world \<Rightarrow> error + ('a TFModel \<times> 'm world)" where
  "run_epochs G images labels indices batch_size' [] (m, w) = Inr (m, w)"
| "run_epochs G images labels indices batch_size' (epoch # rest) (m, w) =
     (let w1 = print [''===============''] w;
          w2 = print [''EPOCH'', str_nat (epoch + 1)] w1;
          w3 = print [''===============''] w2
      in case shuffle (random w3) (heap w3 ! indices) of
           (shuffled, r') \<Rightarrow>
             (let w4 = w3\<lparr>heap := (heap w3)[indices := shuffled], random := r'\<rparr>;
                  batches = chunks (heap w4 ! indices) batch_size'
              in case run_batches G images labels (zip [1..<Suc (length batches)] batches) (m, w4) of
                   Inl e \<Rightarrow> Inl e
                 | Inr (m', w') \<Rightarrow> run_epochs G images labels indices batch_size' rest (m', w')))"

text \<open>
  \<^verbatim>\<open>train(images, labels, indices, epochs, batch_size)\<close>. The argument \<open>indices'\<close> is
  \<open>None\<close> or the address of the caller's list. The summary writer is opened on
  \<^verbatim>\<open>self.log_path\<close> before the loop, which fails when that directory cannot be
  written, and closed after it; its records are the \<open>writer\<close> component.
\<close>

definition train ::
  "('a, 'm) graph_ops \<Rightarrow> 'a TFModel \<Rightarrow> 'm world \<Rightarrow> 'a tensor \<Rightarrow> bool tensor
     \<Rightarrow> nat option \<Rightarrow> nat option \<Rightarrow> nat option \<Rightarrow> error + ('a TFModel \<times> 'm world)" where
  "train G m w images labels indices' epochs' batch_size' =
     (case (case indices' of
              None \<Rightarrow> (case np_len images of
                          Inl e \<Rightarrow> Inl e
                        | Inr n \<Rightarrow> Inr (new_list (map int [0..<n]) w))
            | Some a \<Rightarrow> if a < length (heap w) then Inr (new_list (heap w ! a) w)
                        else Inl TypeError) of
        Inl e \<Rightarrow> Inl e
      | Inr (indices, w0) \<Rightarrow>
          (let epochs'' = (case epochs' of None \<Rightarrow> epochs m | Some e \<Rightarrow> e);
               batch_size'' = (case batch_size' of None \<Rightarrow> batch_size m | Some b \<Rightarrow> b)
           in if \<not> can_write w0 (log_path m) then Inl FrameworkError
              else
                let w1 = print [''Training''] w0
                in run_epochs G images labels indices batch_size'' [0..<epochs''] (m, w1)))"

subsection \<open>TFModel.predict\<close>

text \<open>The loop over \<^verbatim>\<open>enumerate(images)\<close>.\<close>

fun predict_loop ::
  "('a::{zero,ord}, 'm) graph_ops \<Rightarrow> 'a TFModel \<Rightarrow> 'a tensor \<Rightarrow> nat list \<Rightarrow> bool tensor
     \<Rightarrow> error + bool tensor" where
  "predict_loop G m images [] pred = Inr pred"
| "predict_loop G m images (i # rest) pred =
     (case run_pred_labels G m (np_batch_of_one (np_row images i)) of
        Inl e \<Rightarrow> Inl e
      | Inr labels \<Rightarrow>
          (case np_getitem labels 0 of
             Inl e \<Rightarrow> Inl e
           | Inr v \<Rightarrow>
               (case np_setitem pred i v of
                  Inl e \<Rightarrow> Inl e
                | Inr pred' \<Rightarrow> predict_loop G m images rest pred')))"

definition predict ::
  "('a::{zero,ord}, 'm) graph_ops \<Rightarrow> 'a TFModel \<Rightarrow> (nat list \<Rightarrow> bool) \<Rightarrow> string list
     \<Rightarrow> 'a tensor \<Rightarrow> int list option \<Rightarrow> error + (bool tensor \<times> string list)" where
  "predict G m junk out images indices' =
     (case (case indices' of
              None \<Rightarrow> (case np_len images of
                          Inl e \<Rightarrow> Inl e
                        | Inr n \<Rightarrow> Inr (map int [0..<n]))
            | Some idxs \<Rightarrow> np_r idxs) of
        Inl e \<Rightarrow> Inl e
      | Inr indices \<Rightarrow>
          (case np_take images indices of
             Inl e \<Rightarrow> Inl e
           | Inr images' \<Rightarrow>
               (let pred = np_empty (butlast (shape images')) junk;
                    out' = out @ [''Testing'']
                in case np_len images' of
                     Inl e \<Rightarrow> Inl e
                   | Inr n \<Rightarrow>
                       (case predict_loop G m images' [0..<n] pred of
                          Inl e \<Rightarrow> Inl e
                        | Inr pred' \<Rightarrow> Inr (pred', out')))))"

subsection \<open>TFModel.\_save\_model and TFModel.\_load\_model\<close>

definition save_model ::
  "(string \<Rightarrow> bool) \<Rightarrow> 'a TFModel \<Rightarrow> 'a checkpoints \<Rightarrow> string \<Rightarrow> error + 'a checkpoints" where
  "save_model writable m fs path = saver_save writable fs (session m) (path @ ''/model.ckpt'')"

definition load_model :: "'a TFModel \<Rightarrow> 'a checkpoints \<Rightarrow> string \<Rightarrow> error + 'a TFModel" where
  "load_model m fs path =
     (case saver_restore fs (session m) (path @ ''/model.ckpt'') of
        Inl e \<Rightarrow> Inl e
      | Inr s \<Rightarrow> Inr (m\<lparr>session := s\<rparr>))"

section \<open>Notions used in the statements\<close>

text \<open>
  Element \<open>idx\<close> of part \<open>j\<close> when the last axis of \<open>r\<close> is cut into parts of \<open>m\<close>
  channels each, and the three components of what a successful \<^verbatim>\<open>call\<close> returns.
\<close>

definition gate_part :: "'a tensor \<Rightarrow> nat \<Rightarrow> nat \<Rightarrow> nat list \<Rightarrow> 'a" where
  "gate_part r m j idx = data r (idx[length idx - 1 := last idx + j * m])"

definition call_output :: "error + (('a tensor \<times> ('a tensor \<times> 'a tensor)) \<times> 'a var_scope) \<Rightarrow> 'a tensor" where
  "call_output res = fst (fst (projr res))"

definition call_new_cell :: "error + (('a tensor \<times> ('a tensor \<times> 'a tensor)) \<times> 'a var_scope) \<Rightarrow> 'a tensor" where
  "call_new_cell res = fst (snd (fst (projr res)))"

definition call_new_hidden :: "error + (('a tensor \<times> ('a tensor \<times> 'a tensor)) \<times> 'a var_scope) \<Rightarrow> 'a tensor" where
  "call_new_hidden res = snd (snd (fst (projr res)))"

text \<open>
  The order of the working indices in each of \<open>k\<close> successive epochs, and the state of the
  generator after them: every epoch shuffles the order left by the epoch before it, with
  the draws that follow those already used.
\<close>

fun epoch_orders :: "rng \<Rightarrow> 'a list \<Rightarrow> nat \<Rightarrow> 'a list list" where
  "epoch_orders r x 0 = []"
| "epoch_orders r x (Suc k) = (case shuffle r x of (x', r') \<Rightarrow> x' # epoch_orders r' x' k)"

fun rng_after :: "rng \<Rightarrow> 'a list \<Rightarrow> nat \<Rightarrow> rng" where
  "rng_after r x 0 = r"
| "rng_after r x (Suc k) = (case shuffle r x of (x', r') \<Rightarrow> rng_after r' x' k)"

text \<open>
  Feeding the batches \<open>bs\<close> one after the other to the optimizer, from the session \<open>s\<close>:
  the records written and the session reached. It serves in the proofs about the two loops
  of \<^verbatim>\<open>train\<close>.
\<close>

fun optimizer_steps ::
  "('a, 'm) graph_ops \<Rightarrow> 'a tensor \<Rightarrow> bool tensor \<Rightarrow> int list list \<Rightarrow> 'a session
     \<Rightarrow> error + (('m \<times> int) list \<times> 'a session)" where
  "optimizer_steps G images labels [] s = Inr ([], s)"
| "optimizer_steps G images labels (frames # rest) s =
     (case np_take images frames of
        Inl e \<Rightarrow> Inl e
      | Inr x \<Rightarrow>
          (case np_take labels frames of
             Inl e \<Rightarrow> Inl e
           | Inr y \<Rightarrow>
               (case train_op G s x y of
                  Inl e \<Rightarrow> Inl e
                | Inr (summary, vars') \<Rightarrow>
                    (case optimizer_steps G images labels rest
                            \<lparr>variables = vars', step = step s + 1\<rparr> of
                       Inl e \<Rightarrow> Inl e
                     | Inr (recs, s') \<Rightarrow> Inr ((summary, sint (step s + 1)) # recs, s')))))"

section \<open>Concrete inputs\<close>

text \<open>
  A one-dimensional cell on two positions with two input channels; a convolution kernel
  that answers each output position with its channel number, so that the four gates can be
  told apart; a harness whose network thresholds the first channel of a 1 by 2 image
  against a stored variable, whose optimizer raises that variable by the number of frames
  in the batch and reports this number as the summary, and whose \<^verbatim>\<open>step\<close> is two
  short of the largest 32-bit integer.
\<close>

definition const_tensor :: "nat list \<Rightarrow> 'a \<Rightarrow> 'a tensor" where
  "const_tensor shp v = \<lparr>shape = shp, data = (\<lambda>idx. v)\<rparr>"

definition example_kernels :: "real nn_kernels" where
  "example_kernels =
     \<lparr>sigmoid_k = (\<lambda>x. 1 / (1 + exp (- x))), tanh_k = tanh,
      conv_k = (\<lambda>op x w ss p idx. real (last idx)), init_k = (\<lambda>name shp idx. 0)\<rparr>"

definition example_cell :: "bool \<Rightarrow> nat \<Rightarrow> real ConvLSTMCell" where
  "example_cell sk oc =
     \<lparr>conv_ndims = 1, input_shape = [2, 2], output_channels = oc, kernel_shape = [1],
      use_bias = True, forget_bias = 1, skip_connection = sk,
      total_output_channels = (if sk then oc + 2 else oc)\<rparr>"

definition example_inputs :: "real tensor" where
  "example_inputs = \<lparr>shape = [1, 2, 2], data = (\<lambda>idx. 5)\<rparr>"

definition example_graph :: "(real, nat) graph_ops" where
  "example_graph =
     \<lparr>network = (\<lambda>vars x.
         case map_of vars ''threshold'' of
           None \<Rightarrow> Inl FrameworkError
         | Some t \<Rightarrow> Inr \<lparr>shape = butlast (shape x),
                           data = (\<lambda>idx. data x (idx @ [0]) - data t [])\<rparr>),
      train_op = (\<lambda>s x y.
         Inr (hd (shape x),
              map (\<lambda>(name, v). (name, tensor_map (\<lambda>t. t + real (hd (shape x))) v))
                (variables s)))\<rparr>"

definition example_model :: "real TFModel" where
  "example_model =
     \<lparr>session = \<lparr>variables = [(''threshold'', const_tensor [] (1 / 2))], step = 2147483646\<rparr>,
      height = 1, width = 2, depth = 1, epochs = 1, batch_size = 2, log_path = ''log''\<rparr>"

definition example_images :: "real tensor" where
  "example_images = \<lparr>shape = [3, 1, 2, 1], data = (\<lambda>idx. real (hd idx + idx ! 2) / 2)\<rparr>"

definition example_no_images :: "real tensor" where
  "example_no_images = \<lparr>shape = [0, 1, 2, 1], data = (\<lambda>idx. 0)\<rparr>"

definition example_labels :: "bool tensor" where
  "example_labels = \<lparr>shape = [3, 1, 2], data = (\<lambda>idx. True)\<rparr>"

definition example_world :: "nat world" where
  "example_world =
     \<lparr>heap = [[0, 1, 2]], random = \<lparr>draws = (\<lambda>k. k + 1), pos = 0\<rparr>, stdout = [], writer = [], fed = [],
      can_write = (\<lambda>dir. True)\<rparr>"

definition example_retrained :: "real session" where
  "example_retrained = \<lparr>variables = [(''threshold'', const_tensor [] 2)], step = 7\<rparr>"

section \<open>Lemmas about the tensor operations\<close>

lemma bc_rev_refl: "bc_rev s s = Some s"
  by (induction s) auto

lemma bc_rev_length: "bc_rev s t = Some u \<Longrightarrow> length u = max (length s) (length t)"
  by (induction s t arbitrary: u rule: bc_rev.induct) (auto split: if_splits)

lemma bc_rev_absorb: "bc_rev g sc = Some s1 \<Longrightarrow> bc_rev s1 g = Some s1"
proof (induction g sc arbitrary: s1 rule: bc_rev.induct)
  case (1 ys)
  then show ?case by (cases s1) auto
next
  case (2 x xs)
  then show ?case by (simp add: bc_rev_refl)
next
  case (3 x xs y ys)
  then show ?case by (auto split: if_splits)
qed

lemma bc_rev_Nil2: "bc_rev xs [] = Some xs"
  by (cases xs) auto

lemma broadcast_shape_refl: "broadcast_shape s s = Some s"
  by (simp add: broadcast_shape_def bc_rev_refl)

lemma broadcast_shape_absorb:
  "broadcast_shape g sc = Some s1 \<Longrightarrow> broadcast_shape s1 g = Some s1"
  by (auto simp: broadcast_shape_def dest: bc_rev_absorb)

lemma broadcast_shape_length:
  "broadcast_shape s t = Some u \<Longrightarrow> length u = max (length s) (length t)"
  by (auto simp: broadcast_shape_def dest: bc_rev_length)

lemma broadcast_shape_bias: "broadcast_shape (xs @ [n]) [n] = Some (xs @ [n])"
  by (simp add: broadcast_shape_def bc_rev_Nil2)

lemma broadcast_shape_last:
  "broadcast_shape (xs @ [a]) (ys @ [b]) = Some u \<Longrightarrow> last u = (if a = b \<or> b = 1 then a else b)"
  by (auto simp: broadcast_shape_def split: if_splits)

lemma broadcast_shape_channels:
  assumes "broadcast_shape (xs @ [a]) sc = Some u" and "a \<noteq> 1 \<or> sc = xs @ [a]"
  shows "last u = a"
proof (cases sc rule: rev_cases)
  case Nil
  with assms(1) show ?thesis by (auto simp: broadcast_shape_def bc_rev_Nil2)
next
  case (snoc ys b)
  with assms(1) have l: "last u = (if a = b \<or> b = 1 then a else b)"
    by (simp add: broadcast_shape_last)
  show ?thesis
  proof (cases "a = b \<or> b = 1")
    case True
    with l show ?thesis by simp
  next
    case False
    with assms(1) snoc have "a = 1"
      by (auto simp: broadcast_shape_def split: if_splits)
    with assms(2) snoc False show ?thesis by simp
  qed
qed

lemma bcast_index_in_range: "in_range s idx \<Longrightarrow> bcast_index s idx = idx"
  by (auto simp: in_range_def bcast_index_def list_all2_conv_all_nth intro!: nth_equalityI)

lemma bcast_index_idem:
  "length g \<le> length idx \<Longrightarrow> bcast_index g (bcast_index g idx) = bcast_index g idx"
  unfolding bcast_index_def
  by (auto intro!: nth_equalityI)

lemma bcast_index_length:
  "length g \<le> length idx \<Longrightarrow> length (bcast_index g idx) = length g"
  by (simp add: bcast_index_def)

lemma tensor_binop_Inr:
  "tensor_binop f a b = Inr r \<Longrightarrow>
     broadcast_shape (shape a) (shape b) = Some (shape r)
     \<and> data r = (\<lambda>idx. f (data a (bcast_index (shape a) idx)) (data b (bcast_index (shape b) idx)))"
  by (auto simp: tensor_binop_def split: option.splits)

lemma concat2_shape:
  "concat2 ax a b = Inr x \<Longrightarrow>
     length (shape x) = length (shape a) \<and> (shape x)[ax := 0] = (shape a)[ax := 0]"
  by (auto simp: concat2_def split: if_splits)

lemma concat_from_shape:
  "concat_from ax a ts = Inr x \<Longrightarrow>
     length (shape x) = length (shape a) \<and> (shape x)[ax := 0] = (shape a)[ax := 0]"
proof (induction ts arbitrary: a)
  case Nil
  then show ?case by simp
next
  case (Cons t ts)
  then obtain a' where a': "concat2 ax a t = Inr a'" and x: "concat_from ax a' ts = Inr x"
    by (auto split: sum.splits)
  from Cons.IH[OF x] concat2_shape[OF a'] show ?case by simp
qed

lemma butlast_update_last:
  "length s = length t \<Longrightarrow> s[length t - 1 := 0] = t[length t - 1 := (0::nat)] \<Longrightarrow> butlast s = butlast t"
  by (metis butlast_list_update butlast_conv_take length_list_update take_update_cancel order_refl)

lemma array_ops_concat_last_shape:
  assumes "array_ops_concat (int n - 1) (a # ts) = Inr x" and "length (shape a) = n"
  shows "length (shape x) = n" and "butlast (shape x) = butlast (shape a)"
proof -
  from assms have n: "0 < n" and x: "concat_from (n - 1) a ts = Inr x"
    by (auto simp: array_ops_concat_def norm_axis_def rank_def nat_diff_distrib split: if_splits option.splits)
  from concat_from_shape[OF x] assms(2)
  show "length (shape x) = n" by simp
  from concat_from_shape[OF x] assms(2) butlast_update_last[of "shape x" "shape a"]
  show "butlast (shape x) = butlast (shape a)" by simp
qed

lemma array_ops_concat_last_Inr:
  assumes "array_ops_concat (- 1) [a, b] = Inr x"
  shows "shape a \<noteq> []" and "butlast (shape b) = butlast (shape a)"
    and "length (shape b) = length (shape a)"
    and "shape x = butlast (shape a) @ [last (shape a) + last (shape b)]"
    and "\<And>idx. length idx = length (shape a) \<Longrightarrow>
           data x idx = (if last idx < last (shape a) then data a idx
                         else data b (butlast idx @ [last idx - last (shape a)]))"
proof -
  let ?n = "length (shape a)"
  from assms have n: "0 < ?n" and c: "concat2 (?n - 1) a b = Inr x"
    by (auto simp: array_ops_concat_def norm_axis_def rank_def nat_diff_distrib
        split: if_splits option.splits sum.splits)
  from n show ne: "shape a \<noteq> []" by simp
  from c have lb: "length (shape b) = ?n"
    and eq: "(shape a)[?n - 1 := 0] = (shape b)[?n - 1 := 0]"
    and x: "x = \<lparr>shape = (shape a)[?n - 1 := shape a ! (?n - 1) + shape b ! (?n - 1)],
                 data = (\<lambda>idx. if idx ! (?n - 1) < shape a ! (?n - 1) then data a idx
                               else data b (idx[?n - 1 := idx ! (?n - 1) - shape a ! (?n - 1)]))\<rparr>"
    by (auto simp: concat2_def split: if_splits)
  from lb show "length (shape b) = ?n" .
  from eq lb butlast_update_last[of "shape b" "shape a"]
  show bb: "butlast (shape b) = butlast (shape a)" by simp
  from lb n have nb: "shape b \<noteq> []" by auto
  have upd: "s[length s - 1 := v] = butlast s @ [v]" if "s \<noteq> []" for s :: "nat list" and v
    using that by (cases s rule: rev_cases) (auto simp: list_update_append)
  from x ne nb lb show "shape x = butlast (shape a) @ [last (shape a) + last (shape b)]"
    using upd[OF ne] by (simp add: last_conv_nth)
  fix idx :: "nat list"
  assume l: "length idx = ?n"
  with n have "idx \<noteq> []" by auto
  with x l ne upd[OF this]
  show "data x idx = (if last idx < last (shape a) then data a idx
                         else data b (butlast idx @ [last idx - last (shape a)]))"
    by (simp add: last_conv_nth)
qed

lemma upt_4: "[0..<4] = [0, 1, 2, 3]"
  by (simp add: upt_rec)

lemma array_ops_split_4:
  assumes "array_ops_split v 4 axis = Inr gates"
  shows "\<exists>ax m. norm_axis axis (rank v) = Some ax \<and> shape v ! ax = 4 * m
           \<and> gates = map (\<lambda>j. \<lparr>shape = (shape v)[ax := m],
                                 data = (\<lambda>idx. data v (idx[ax := idx ! ax + j * m]))\<rparr>) [0, 1, 2, 3]"
proof -
  from assms obtain ax where ax: "norm_axis axis (rank v) = Some ax"
    and m: "shape v ! ax mod 4 = 0"
    and g: "gates = map (\<lambda>j. \<lparr>shape = (shape v)[ax := shape v ! ax div 4],
                 data = (\<lambda>idx. data v (idx[ax := idx ! ax + j * (shape v ! ax div 4)]))\<rparr>) [0..<4]"
    by (auto simp: array_ops_split_def Let_def split: option.splits if_splits)
  from m have "shape v ! ax = 4 * (shape v ! ax div 4)" by presburger
  with ax g show ?thesis unfolding upt_4 by blast
qed

section \<open>Lemmas about \_conv\<close>

lemma get_variable_shape:
  "get_variable vs name shp init = Inr (v, vs') \<Longrightarrow> shape v = shp"
  by (auto simp: get_variable_def Let_def split: option.splits if_splits)

lemma check_shapes_Inr:
  "check_shapes first ss d = Inr t \<Longrightarrow>
     (\<forall>s \<in> set ss. length s \<in> {3, 4, 5} \<and> length s = length first)
     \<and> t = d + sum_list (map last ss)"
proof (induction ss arbitrary: d)
  case Nil
  then show ?case by simp
next
  case (Cons s ss)
  from Cons.prems have ok: "length s \<in> {3, 4, 5}" "length s = length first"
    and rest: "check_shapes first ss (d + last s) = Inr t"
    by (auto split: if_splits)
  from Cons.IH[OF rest] ok show ?case by simp
qed

lemma check_shapes_Inl:
  "\<exists>s \<in> set ss. length s \<notin> {3, 4, 5} \<or> length s \<noteq> length first \<Longrightarrow>
     \<exists>msg. check_shapes first ss d = Inl (ValueError msg)"
  by (induction ss arbitrary: d) auto

lemma check_shapes_ok:
  "\<forall>s \<in> set ss. length s \<in> {3, 4, 5} \<and> length s = length first \<Longrightarrow>
     check_shapes first ss d = Inr (d + sum_list (map last ss))"
proof (induction ss arbitrary: d)
  case Nil
  show ?case by simp
next
  case (Cons s ss)
  from Cons.prems have t: "\<forall>s \<in> set ss. length s \<in> {3, 4, 5} \<and> length s = length first"
    by (metis list.set_intros(2))
  from Cons.prems have h: "length s \<in> {3, 4, 5}" "length s = length first"
    by (metis list.set_intros(1))+
  from Cons.IH[OF t, of "d + last s"] h show ?case by simp
qed

lemma select_conv_Inr:
  "select_conv n = Inr (op, st) \<Longrightarrow>
     n = conv_ndim op + 2 \<and> spatial_strides op st = Some (replicate (conv_ndim op) 1)"
  by (auto simp: select_conv_def conv_ndim_def spatial_strides_def numeral_eq_Suc split: if_splits)

lemma select_conv_ok:
  "n \<in> {3, 4, 5} \<Longrightarrow> \<exists>op st. select_conv n = Inr (op, st)"
  by (auto simp: select_conv_def)

lemma out_extent_SAME_1: "out_extent SAME n k (Suc 0) = n"
  by (simp add: out_extent_def)

lemma spatial_butlast:
  "length s = nd + 2 \<Longrightarrow> hd s # map (\<lambda>i. s ! (i + 1)) [0..<nd] = butlast s"
  by (cases s) (auto intro!: nth_equalityI simp: nth_butlast nth_Cons split: nat.splits)

lemma conv_apply_SAME_1:
  assumes "conv_apply K op x w st SAME = Inr r"
    and "spatial_strides op st = Some (replicate (conv_ndim op) 1)"
  shows "shape r = butlast (shape x) @ [shape w ! (conv_ndim op + 1)]"
    and "rank x = conv_ndim op + 2" and "rank w = conv_ndim op + 2"
    and "data r = conv_k K op x w (replicate (conv_ndim op) 1) SAME"
proof -
  from assms have rk: "rank x = conv_ndim op + 2" "rank w = conv_ndim op + 2"
    and r: "r = \<lparr>shape = hd (shape x) # map (\<lambda>i. out_extent SAME (shape x ! (i + 1)) (shape w ! i)
                      (replicate (conv_ndim op) 1 ! i)) [0..<conv_ndim op] @ [shape w ! (conv_ndim op + 1)],
                 data = conv_k K op x w (replicate (conv_ndim op) 1) SAME\<rparr>"
    by (auto simp: conv_apply_def Let_def split: if_splits)
  have m: "map (\<lambda>i. out_extent SAME (shape x ! (i + 1)) (shape w ! i)
                      (replicate (conv_ndim op) 1 ! i)) [0..<conv_ndim op]
        = map (\<lambda>i. shape x ! (i + 1)) [0..<conv_ndim op]"
    by (simp add: out_extent_SAME_1)
  have b: "hd (shape x) # map (\<lambda>i. shape x ! (i + 1)) [0..<conv_ndim op] = butlast (shape x)"
    using spatial_butlast[of "shape x" "conv_ndim op"] rk by (simp add: rank_def)
  have "shape r = (hd (shape x) # map (\<lambda>i. shape x ! (i + 1)) [0..<conv_ndim op])
                    @ [shape w ! (conv_ndim op + 1)]"
    unfolding r m[symmetric] by simp
  then show "shape r = butlast (shape x) @ [shape w ! (conv_ndim op + 1)]"
    unfolding b .
  show "rank x = conv_ndim op + 2" "rank w = conv_ndim op + 2" by (rule rk)+
  from r show "data r = conv_k K op x w (replicate (conv_ndim op) 1) SAME" by simp
qed

lemma add_bias_shape:
  assumes "add_bias res nf b bs vs = Inr (r, vs')" and "shape res = xs @ [nf]"
  shows "shape r = shape res"
proof (cases b)
  case False
  with assms show ?thesis by (simp add: add_bias_def)
next
  case True
  with assms obtain bias_term vs1 where
    g: "get_variable vs ''biases'' [nf] (\<lambda>_. bs) = Inr (bias_term, vs1)"
    and r: "tensor_binop (+) res bias_term = Inr r"
    by (auto simp: add_bias_def split: sum.splits)
  from get_variable_shape[OF g] r assms(2) show ?thesis
    by (auto simp: tensor_binop_def broadcast_shape_bias split: option.splits)
qed

lemma conv_Inr:
  assumes "conv K args fs nf b bs vs = Inr (r, vs')"
  shows "args \<noteq> []"
    and "\<forall>a \<in> set args. rank a \<in> {3, 4, 5} \<and> rank a = rank (hd args)"
    and "rank (hd args) = length fs + 2"
    and "shape r = butlast (shape (hd args)) @ [nf]"
proof -
  from assms obtain a rest where args: "args = a # rest"
    by (cases args) (auto simp: conv_def)
  with assms obtain dpt op st w vs1 x res where
    cs: "check_shapes (shape a) (map shape args) 0 = Inr dpt"
    and sel: "select_conv (length (shape a)) = Inr (op, st)"
    and gv: "get_variable vs ''kernel'' (fs @ [dpt, nf]) (init_k K ''kernel'' (fs @ [dpt, nf]))
               = Inr (w, vs1)"
    and x: "(if length args = 1 then Inr (hd args)
             else array_ops_concat (int (length (shape a)) - 1) args) = Inr x"
    and ca: "conv_apply K op x w st SAME = Inr res"
    and ab: "add_bias res nf b bs vs1 = Inr (r, vs')"
    by (auto simp: conv_def Let_def split: sum.splits prod.splits)
  show "args \<noteq> []" using args by simp
  from check_shapes_Inr[OF cs] args
  show "\<forall>a \<in> set args. rank a \<in> {3, 4, 5} \<and> rank a = rank (hd args)"
    by (auto simp: rank_def)
  have xs: "length (shape x) = length (shape a) \<and> butlast (shape x) = butlast (shape a)"
  proof (cases "length args = 1")
    case True
    with x args show ?thesis by simp
  next
    case False
    with x args array_ops_concat_last_shape[of "length (shape a)" a rest x] show ?thesis by simp
  qed
  note sc = select_conv_Inr[OF sel]
  note cv = conv_apply_SAME_1[OF ca conjunct2[OF sc]]
  have w: "shape w = fs @ [dpt, nf]" by (rule get_variable_shape[OF gv])
  from cv(3) w have fs: "length fs = conv_ndim op" by (simp add: rank_def)
  from cv(2) xs args fs show "rank (hd args) = length fs + 2" by (simp add: rank_def)
  from cv(1) w fs have "shape res = butlast (shape x) @ [nf]"
    by (simp add: nth_append)
  with add_bias_shape[OF ab, of "butlast (shape x)"] xs args
  show "shape r = butlast (shape (hd args)) @ [nf]" by simp
qed

lemma conv_rank_error:
  assumes "\<exists>a \<in> set args. rank a \<notin> {3, 4, 5} \<or> rank a \<noteq> rank (hd args)"
  shows "\<exists>msg. conv K args fs nf b bs vs = Inl (ValueError msg)"
proof -
  from assms obtain a rest where args: "args = a # rest" by (cases args) auto
  from assms obtain t where t: "t \<in> set args" "rank t \<notin> {3, 4, 5} \<or> rank t \<noteq> rank (hd args)"
    by blast
  from t(1) have "shape t \<in> set (map shape args)" by simp
  moreover from t(2) have "length (shape t) \<notin> {3, 4, 5} \<or> length (shape t) \<noteq> length (shape a)"
    by (simp add: rank_def args)
  ultimately have "\<exists>s \<in> set (map shape args). length s \<notin> {3, 4, 5} \<or> length s \<noteq> length (shape a)"
    by blast
  from check_shapes_Inl[OF this, of 0] obtain msg where
    "check_shapes (shape a) (map shape args) 0 = Inl (ValueError msg)" by blast
  then show ?thesis
    unfolding conv_def args by (simp add: Let_def)
qed

lemma conv_rank_ok:
  assumes ne: "args \<noteq> []"
    and ok: "\<forall>a \<in> set args. rank a \<in> {3, 4, 5} \<and> rank a = rank (hd args)"
  shows "\<exists>op st. select_conv (rank (hd args)) = Inr (op, st)
             \<and> conv_ndim op + 2 = rank (hd args)
             \<and> spatial_strides op st = Some (replicate (conv_ndim op) 1)
             \<and> conv K args fs nf b bs vs =
                 (case get_variable vs ''kernel''
                         (fs @ [sum_list (map (\<lambda>a. last (shape a)) args), nf])
                         (init_k K ''kernel'' (fs @ [sum_list (map (\<lambda>a. last (shape a)) args), nf])) of
                    Inl e \<Rightarrow> Inl e
                  | Inr (w, vs1) \<Rightarrow>
                      (case (if length args = 1 then Inr (hd args)
                             else array_ops_concat (int (rank (hd args)) - 1) args) of
                         Inl e \<Rightarrow> Inl e
                       | Inr x \<Rightarrow>
                           (case conv_apply K op x w st SAME of
                              Inl e \<Rightarrow> Inl e
                            | Inr res \<Rightarrow> add_bias res nf b bs vs1)))"
proof -
  from ne obtain a rest where args: "args = a # rest" by (cases args) auto
  have "length s \<in> {3, 4, 5} \<and> length s = length (shape a)" if "s \<in> set (map shape args)" for s
  proof -
    from that obtain t where "t \<in> set args" "s = shape t" by auto
    with ok args show ?thesis by (metis rank_def list.sel(1))
  qed
  then have "\<forall>s \<in> set (map shape args). length s \<in> {3, 4, 5} \<and> length s = length (shape a)"
    by blast
  from check_shapes_ok[OF this, of 0]
  have cs: "check_shapes (shape a) (map shape args) 0
              = Inr (sum_list (map (\<lambda>a. last (shape a)) args))"
    by (simp add: comp_def)
  from ok args have "rank (hd args) \<in> {3, 4, 5}" by (metis list.set_intros(1))
  from select_conv_ok[OF this] obtain op st where
    sel: "select_conv (rank (hd args)) = Inr (op, st)" by blast
  note sc = select_conv_Inr[OF sel]
  from sel have sel': "select_conv (length (shape a)) = Inr (op, st)"
    by (simp add: args rank_def)
  have "conv K args fs nf b bs vs =
                 (case get_variable vs ''kernel''
                         (fs @ [sum_list (map (\<lambda>a. last (shape a)) args), nf])
                         (init_k K ''kernel'' (fs @ [sum_list (map (\<lambda>a. last (shape a)) args), nf])) of
                    Inl e \<Rightarrow> Inl e
                  | Inr (w, vs1) \<Rightarrow>
                      (case (if length args = 1 then Inr (hd args)
                             else array_ops_concat (int (rank (hd args)) - 1) args) of
                         Inl e \<Rightarrow> Inl e
                       | Inr x \<Rightarrow>
                           (case conv_apply K op x w st SAME of
                              Inl e \<Rightarrow> Inl e
                            | Inr res \<Rightarrow> add_bias res nf b bs vs1)))"
    unfolding conv_def Let_def using cs sel' by (simp add: args rank_def cong: sum.case_cong)
  moreover from sc have "conv_ndim op + 2 = rank (hd args)"
    and "spatial_strides op st = Some (replicate (conv_ndim op) 1)" by simp_all
  ultimately show ?thesis using sel by (intro exI[of _ op] exI[of _ st] conjI)
qed

section \<open>Lemmas about the cell\<close>

lemma ConvLSTMCell_init_fields:
  assumes "ConvLSTMCell_init ishp oc ks ub sk fb = Inr c"
  shows "input_shape c = ishp" and "output_channels c = oc" and "kernel_shape c = ks"
    and "conv_ndims c = length ks" and "skip_connection c = sk" and "use_bias c = ub"
    and "forget_bias c = fb"
    and "total_output_channels c = (if sk then oc + last ishp else oc)"
  using assms by (auto simp: ConvLSTMCell_init_def Let_def split: if_splits)

text \<open>The body of \<^verbatim>\<open>call\<close> after the convolution and the split have succeeded.\<close>

lemma call_unfold:
  assumes "conv K [inputs, hidden] (kernel_shape c) (4 * output_channels c) (use_bias c) 0 vs = Inr (r, vs1)"
    and "array_ops_split r 4 (int (conv_ndims c) + 1) = Inr [g0, g1, g2, g3]"
  shows "call K c inputs (cell, hidden) vs =
     (case tensor_binop (*) (math_ops_sigmoid K (tensor_map (\<lambda>x. x + forget_bias c) g2)) cell of
        Inl e \<Rightarrow> Inl e
      | Inr new_cell0 \<Rightarrow>
          (case tensor_binop (*) (math_ops_sigmoid K g0) (math_ops_tanh K g1) of
             Inl e \<Rightarrow> Inl e
           | Inr incr \<Rightarrow>
               (case tensor_binop (+) new_cell0 incr of
                  Inl e \<Rightarrow> Inl e
                | Inr new_cell \<Rightarrow>
                    (case tensor_binop (*) (math_ops_tanh K new_cell) (math_ops_sigmoid K g3) of
                       Inl e \<Rightarrow> Inl e
                     | Inr output0 \<Rightarrow>
                         (case (if skip_connection c
                                then array_ops_concat (- 1) [output0, inputs]
                                else Inr output0) of
                            Inl e \<Rightarrow> Inl e
                          | Inr output \<Rightarrow> Inr ((output, (new_cell, output)), vs1))))))"
  using assms by (simp add: call_def)

text \<open>What a successful step has computed, in terms of the convolution result \<open>r\<close>.\<close>

lemma call_Inr:
  assumes call: "call K c inputs (cell, hidden) vs = Inr ((output, new_cell, new_hidden), vs')"
    and nd: "conv_ndims c = length (kernel_shape c)"
  shows "\<exists>r output0.
      conv K [inputs, hidden] (kernel_shape c) (4 * output_channels c) (use_bias c) 0 vs = Inr (r, vs')
    \<and> rank inputs = conv_ndims c + 2
    \<and> shape r = butlast (shape inputs) @ [4 * output_channels c]
    \<and> broadcast_shape (butlast (shape inputs) @ [output_channels c]) (shape cell) = Some (shape new_cell)
    \<and> shape output0 = shape new_cell
    \<and> (\<forall>idx. in_range (shape new_cell) idx \<longrightarrow>
          data new_cell idx =
            sigmoid_k K (data r ((bcast_index (butlast (shape inputs) @ [output_channels c]) idx)
                                  [conv_ndims c + 1 := bcast_index (butlast (shape inputs) @ [output_channels c]) idx ! (conv_ndims c + 1)
                                       + 2 * output_channels c])
                         + forget_bias c)
              * data cell (bcast_index (shape cell) idx)
            + sigmoid_k K (data r ((bcast_index (butlast (shape inputs) @ [output_channels c]) idx)
                                  [conv_ndims c + 1 := bcast_index (butlast (shape inputs) @ [output_channels c]) idx ! (conv_ndims c + 1)
                                       + 0 * output_channels c]))
              * tanh_k K (data r ((bcast_index (butlast (shape inputs) @ [output_channels c]) idx)
                                  [conv_ndims c + 1 := bcast_index (butlast (shape inputs) @ [output_channels c]) idx ! (conv_ndims c + 1)
                                       + 1 * output_channels c])))
    \<and> (\<forall>idx. in_range (shape new_cell) idx \<longrightarrow>
          data output0 idx =
            tanh_k K (data new_cell idx)
              * sigmoid_k K (data r ((bcast_index (butlast (shape inputs) @ [output_channels c]) idx)
                                  [conv_ndims c + 1 := bcast_index (butlast (shape inputs) @ [output_channels c]) idx ! (conv_ndims c + 1)
                                       + 3 * output_channels c])))
    \<and> (if skip_connection c then array_ops_concat (- 1) [output0, inputs] = Inr output
        else output = output0)
    \<and> new_hidden = output"
proof -
  let ?oc = "output_channels c"
  let ?g = "butlast (shape inputs) @ [?oc]"
  let ?ax = "conv_ndims c + 1"
  from call obtain r vs1 gates where
    cv1: "conv K [inputs, hidden] (kernel_shape c) (4 * ?oc) (use_bias c) 0 vs = Inr (r, vs1)"
    and sp: "array_ops_split r 4 (int (conv_ndims c) + 1) = Inr gates"
    by (auto simp: call_def split: sum.splits prod.splits)
  note cr = conv_Inr[OF cv1]
  from cr(3) nd have rk: "rank inputs = conv_ndims c + 2" by simp
  from cr(4) have shr: "shape r = butlast (shape inputs) @ [4 * ?oc]" by simp
  from rk have lb: "length (butlast (shape inputs)) = conv_ndims c + 1" by (simp add: rank_def)
  from array_ops_split_4[OF sp] obtain ax m where
    ax: "norm_axis (int (conv_ndims c) + 1) (rank r) = Some ax" and m: "shape r ! ax = 4 * m"
    and gates: "gates = map (\<lambda>j. \<lparr>shape = (shape r)[ax := m],
                                 data = (\<lambda>idx. data r (idx[ax := idx ! ax + j * m]))\<rparr>) [0, 1, 2, 3]"
    by blast
  from ax have ax': "ax = ?ax"
    by (auto simp: norm_axis_def split: if_splits)
  from m shr lb ax' have m': "m = ?oc" by (simp add: nth_append)
  from shr lb ax' m' have gs: "(shape r)[ax := m] = ?g" by (simp add: list_update_append)
  define G where "G j = \<lparr>shape = ?g, data = (\<lambda>idx. data r (idx[?ax := idx ! ?ax + j * ?oc]))\<rparr>" for j
  from gates gs ax' m' have gates': "gates = [G 0, G 1, G 2, G 3]"
    by (simp add: G_def)
  from call call_unfold[OF cv1 sp[unfolded gates'], of cell] obtain new_cell0 incr output0 where
    n0: "tensor_binop (*) (math_ops_sigmoid K (tensor_map (\<lambda>x. x + forget_bias c) (G 2))) cell = Inr new_cell0"
    and inc: "tensor_binop (*) (math_ops_sigmoid K (G 0)) (math_ops_tanh K (G 1)) = Inr incr"
    and nc: "tensor_binop (+) new_cell0 incr = Inr new_cell"
    and o0: "tensor_binop (*) (math_ops_tanh K new_cell) (math_ops_sigmoid K (G 3)) = Inr output0"
    and out: "(if skip_connection c then array_ops_concat (- 1) [output0, inputs] else Inr output0) = Inr output"
    and nh: "new_hidden = output" and vs1: "vs1 = vs'"
    by (auto split: sum.splits)
  from cv1 vs1 have cv: "conv K [inputs, hidden] (kernel_shape c) (4 * ?oc) (use_bias c) 0 vs = Inr (r, vs')"
    by simp
  have shG: "shape (G j) = ?g" for j by (simp add: G_def)
  note b0 = tensor_binop_Inr[OF n0] and bi = tensor_binop_Inr[OF inc]
    and bn = tensor_binop_Inr[OF nc] and bo = tensor_binop_Inr[OF o0]
  from b0 have s0: "broadcast_shape ?g (shape cell) = Some (shape new_cell0)"
    by (simp add: math_ops_sigmoid_def tensor_map_def shG)
  from bi have si: "shape incr = ?g"
    by (simp add: math_ops_sigmoid_def math_ops_tanh_def tensor_map_def shG broadcast_shape_refl)
  from bn si broadcast_shape_absorb[OF s0] have sn: "shape new_cell = shape new_cell0" by simp
  from bo sn broadcast_shape_absorb[OF s0] have so: "shape output0 = shape new_cell"
    by (simp add: math_ops_sigmoid_def math_ops_tanh_def tensor_map_def shG)
  have proj: "bcast_index (shape new_cell0) idx = idx" "bcast_index ?g (bcast_index ?g idx) = bcast_index ?g idx"
    if "in_range (shape new_cell) idx" for idx
  proof -
    from that sn show "bcast_index (shape new_cell0) idx = idx"
      by (simp add: bcast_index_in_range)
    from that have "length idx = length (shape new_cell0)"
      by (simp add: in_range_def sn list_all2_lengthD)
    with broadcast_shape_length[OF s0] have "length ?g \<le> length idx" by simp
    then show "bcast_index ?g (bcast_index ?g idx) = bcast_index ?g idx"
      by (rule bcast_index_idem)
  qed
  have dn: "data new_cell idx =
            sigmoid_k K (data r ((bcast_index ?g idx)[?ax := bcast_index ?g idx ! ?ax + 2 * ?oc]) + forget_bias c)
              * data cell (bcast_index (shape cell) idx)
            + sigmoid_k K (data r ((bcast_index ?g idx)[?ax := bcast_index ?g idx ! ?ax + 0 * ?oc]))
              * tanh_k K (data r ((bcast_index ?g idx)[?ax := bcast_index ?g idx ! ?ax + 1 * ?oc]))"
    if "in_range (shape new_cell) idx" for idx
    using proj[OF that] b0 bi bn si
    by (simp add: math_ops_sigmoid_def math_ops_tanh_def tensor_map_def G_def)
  have do: "data output0 idx =
            tanh_k K (data new_cell idx)
              * sigmoid_k K (data r ((bcast_index ?g idx)[?ax := bcast_index ?g idx ! ?ax + 3 * ?oc]))"
    if "in_range (shape new_cell) idx" for idx
    using bcast_index_in_range[OF that] bo
    by (simp add: math_ops_sigmoid_def math_ops_tanh_def tensor_map_def G_def)
  from out have out': "if skip_connection c then array_ops_concat (- 1) [output0, inputs] = Inr output
        else output = output0"
    by (auto split: if_splits)
  from cv rk shr s0 sn so dn do out' nh show ?thesis
    by (intro exI[of _ r] exI[of _ output0]) simp
qed

lemma call_projections:
  "\<not> isl res \<Longrightarrow> res = Inr ((call_output res, call_new_cell res, call_new_hidden res), snd (projr res))"
  by (cases res) (auto simp: call_output_def call_new_cell_def call_new_hidden_def)

lemma call_Inr_gates:
  assumes init: "ConvLSTMCell_init ishp oc ks ub sk fb = Inr c"
    and call: "call K c inputs (cell, hidden) vs = Inr ((output, new_cell, new_hidden), vs')"
  shows "\<exists>r gated.
      conv K [inputs, hidden] ks (4 * oc) ub 0 vs = Inr (r, vs')
    \<and> shape r = butlast (shape inputs) @ [4 * oc]
    \<and> broadcast_shape (butlast (shape inputs) @ [oc]) (shape cell) = Some (shape new_cell)
    \<and> shape gated = shape new_cell
    \<and> (\<forall>idx. in_range (shape new_cell) idx \<longrightarrow>
          data new_cell idx =
            sigmoid_k K (gate_part r oc 2 (bcast_index (butlast (shape inputs) @ [oc]) idx) + fb)
              * data cell (bcast_index (shape cell) idx)
            + sigmoid_k K (gate_part r oc 0 (bcast_index (butlast (shape inputs) @ [oc]) idx))
              * tanh_k K (gate_part r oc 1 (bcast_index (butlast (shape inputs) @ [oc]) idx)))
    \<and> (\<forall>idx. in_range (shape new_cell) idx \<longrightarrow>
          data gated idx =
            tanh_k K (data new_cell idx)
              * sigmoid_k K (gate_part r oc 3 (bcast_index (butlast (shape inputs) @ [oc]) idx)))
    \<and> (if sk then array_ops_concat (- 1) [gated, inputs] = Inr output else output = gated)"
proof -
  note f = ConvLSTMCell_init_fields[OF init]
  from f have nd: "conv_ndims c = length (kernel_shape c)" by simp
  let ?g = "butlast (shape inputs) @ [oc]"
  from call_Inr[OF call nd] f obtain r gated where
    cv: "conv K [inputs, hidden] ks (4 * oc) ub 0 vs = Inr (r, vs')"
    and rk: "rank inputs = length ks + 2"
    and shr: "shape r = butlast (shape inputs) @ [4 * oc]"
    and bs: "broadcast_shape ?g (shape cell) = Some (shape new_cell)"
    and sg: "shape gated = shape new_cell"
    and dn: "\<And>idx. in_range (shape new_cell) idx \<Longrightarrow>
          data new_cell idx =
            sigmoid_k K (data r ((bcast_index ?g idx)[length ks + 1 := bcast_index ?g idx ! (length ks + 1) + 2 * oc]) + fb)
              * data cell (bcast_index (shape cell) idx)
            + sigmoid_k K (data r ((bcast_index ?g idx)[length ks + 1 := bcast_index ?g idx ! (length ks + 1) + 0 * oc]))
              * tanh_k K (data r ((bcast_index ?g idx)[length ks + 1 := bcast_index ?g idx ! (length ks + 1) + 1 * oc]))"
    and dg: "\<And>idx. in_range (shape new_cell) idx \<Longrightarrow>
          data gated idx =
            tanh_k K (data new_cell idx)
              * sigmoid_k K (data r ((bcast_index ?g idx)[length ks + 1 := bcast_index ?g idx ! (length ks + 1) + 3 * oc]))"
    and out: "if sk then array_ops_concat (- 1) [gated, inputs] = Inr output else output = gated"
    by auto
  have gp: "gate_part r oc j (bcast_index ?g idx)
        = data r ((bcast_index ?g idx)[length ks + 1 := bcast_index ?g idx ! (length ks + 1) + j * oc])"
    if "in_range (shape new_cell) idx" for idx j
  proof -
    from that have "length idx = length (shape new_cell)"
      by (simp add: in_range_def list_all2_lengthD)
    with broadcast_shape_length[OF bs] have "length ?g \<le> length idx" by simp
    from bcast_index_length[OF this] rk have l: "length (bcast_index ?g idx) = length ks + 2"
      by (simp add: rank_def)
    then have "bcast_index ?g idx \<noteq> []" by auto
    with l show ?thesis by (simp add: gate_part_def last_conv_nth)
  qed
  from cv shr bs sg dn dg out show ?thesis
    by (intro exI[of _ r] exI[of _ gated]) (simp add: gp)
qed

lemma get_variable_returns:
  assumes "vs name = None \<or> (\<exists>v. vs name = Some v \<and> shape v = shp)"
  shows "\<exists>v vs'. get_variable vs name shp init = Inr (v, vs') \<and> shape v = shp
           \<and> (\<forall>other. other \<noteq> name \<longrightarrow> vs' other = vs other)"
  using assms by (auto simp: get_variable_def Let_def)

lemma concat_pair_last:
  assumes "shape a = pre @ [ca]" and "shape b = pre @ [cb]"
  shows "\<exists>x. array_ops_concat (int (length (shape a)) - 1) [a, b] = Inr x
           \<and> array_ops_concat (- 1) [a, b] = Inr x
           \<and> shape x = pre @ [ca + cb]"
proof -
  let ?ax = "length pre"
  from assms have n: "norm_axis (int (length (shape a)) - 1) (rank a) = Some ?ax"
    and n': "norm_axis (- 1) (rank a) = Some ?ax"
    by (simp_all add: norm_axis_def rank_def)
  from assms have "concat2 ?ax a b
      = Inr \<lparr>shape = pre @ [ca + cb],
             data = (\<lambda>idx. if idx ! ?ax < shape a ! ?ax then data a idx
                            else data b (idx[?ax := idx ! ?ax - shape a ! ?ax]))\<rparr>"
    by (simp add: concat2_def)
  with n n' show ?thesis by (simp add: array_ops_concat_def)
qed

lemma conv_pair_returns:
  assumes ks: "length ks \<in> {1, 2, 3}"
    and a: "shape a = bt # sp @ [ca]" and b: "shape b = bt # sp @ [cb]"
    and sp: "length sp = length ks"
    and kv: "vs ''kernel'' = None \<or> (\<exists>v. vs ''kernel'' = Some v \<and> shape v = ks @ [ca + cb, nf])"
    and bv: "vs ''biases'' = None \<or> (\<exists>v. vs ''biases'' = Some v \<and> shape v = [nf])"
  shows "\<exists>r vs'. conv K [a, b] ks nf bias bias_start vs = Inr (r, vs') \<and> shape r = bt # sp @ [nf]"
proof -
  let ?n = "length sp + 2"
  from a b have ra: "rank a = ?n" and rb: "rank b = ?n" by (simp_all add: rank_def)
  from ks sp have n345: "?n \<in> {3, 4, 5}" by auto
  have ok: "\<forall>t \<in> set [a, b]. rank t \<in> {3, 4, 5} \<and> rank t = rank (hd [a, b])"
    using ra rb n345 by simp
  have ne: "[a, b] \<noteq> []" by simp
  from conv_rank_ok[OF ne ok, of K ks nf bias bias_start vs] obtain op st where
    nd0: "conv_ndim op + 2 = rank (hd [a, b])"
    and ss: "spatial_strides op st = Some (replicate (conv_ndim op) 1)"
    and eq: "conv K [a, b] ks nf bias bias_start vs =
               (case get_variable vs ''kernel''
                       (ks @ [sum_list (map (\<lambda>a. last (shape a)) [a, b]), nf])
                       (init_k K ''kernel'' (ks @ [sum_list (map (\<lambda>a. last (shape a)) [a, b]), nf])) of
                  Inl e \<Rightarrow> Inl e
                | Inr (w, vs1) \<Rightarrow>
                    (case (if length [a, b] = 1 then Inr (hd [a, b])
                           else array_ops_concat (int (rank (hd [a, b])) - 1) [a, b]) of
                       Inl e \<Rightarrow> Inl e
                     | Inr x \<Rightarrow>
                         (case conv_apply K op x w st SAME of
                            Inl e \<Rightarrow> Inl e
                          | Inr res \<Rightarrow> add_bias res nf bias bias_start vs1)))"
    by blast
  from nd0 have nd: "conv_ndim op + 2 = rank a" by simp
  from a b have la: "last (shape a) = ca" "last (shape b) = cb" by simp_all
  from kv get_variable_returns[of vs "''kernel''" "ks @ [ca + cb, nf]"] obtain w vs1 where
    gv: "get_variable vs ''kernel'' (ks @ [ca + cb, nf]) (init_k K ''kernel'' (ks @ [ca + cb, nf]))
           = Inr (w, vs1)"
    and sw: "shape w = ks @ [ca + cb, nf]"
    and keep: "\<forall>other. other \<noteq> ''kernel'' \<longrightarrow> vs1 other = vs other"
    by blast
  from a b concat_pair_last[of a "bt # sp" ca b cb] obtain x where
    cc: "array_ops_concat (int (rank a) - 1) [a, b] = Inr x" and sx: "shape x = bt # sp @ [ca + cb]"
    by (auto simp: rank_def)
  from nd ra sp have ndk: "conv_ndim op = length ks" by simp
  have "rank x = conv_ndim op + 2" "rank w = conv_ndim op + 2"
    "shape w ! conv_ndim op = shape x ! (conv_ndim op + 1)"
    using sx sw ndk sp by (simp_all add: rank_def nth_append)
  with ss obtain res where ca': "conv_apply K op x w st SAME = Inr res"
    by (simp add: conv_apply_def Let_def)
  from conv_apply_SAME_1(1)[OF ca' ss] sx sw ndk have sr: "shape res = bt # sp @ [nf]"
    by (simp add: nth_append)
  have "\<exists>r vs'. add_bias res nf bias bias_start vs1 = Inr (r, vs') \<and> shape r = shape res"
  proof (cases bias)
    case False
    then show ?thesis by (simp add: add_bias_def)
  next
    case True
    from bv keep have "vs1 ''biases'' = None \<or> (\<exists>v. vs1 ''biases'' = Some v \<and> shape v = [nf])"
      by simp
    from get_variable_returns[of vs1 "''biases''" "[nf]" "\<lambda>_. bias_start", OF this] obtain bt' vs2 where
      gb: "get_variable vs1 ''biases'' [nf] (\<lambda>_. bias_start) = Inr (bt', vs2)" and sb: "shape bt' = [nf]"
      by blast
    from sr sb broadcast_shape_bias[of "bt # sp" nf]
    have "\<exists>r. tensor_binop (+) res bt' = Inr r \<and> shape r = shape res"
      by (simp add: tensor_binop_def)
    with True gb show ?thesis by (auto simp: add_bias_def)
  qed
  then obtain r vs' where ab: "add_bias res nf bias bias_start vs1 = Inr (r, vs')"
    and srr: "shape r = shape res" by blast
  from la gv have gv': "get_variable vs ''kernel''
                       (ks @ [sum_list (map (\<lambda>a. last (shape a)) [a, b]), nf])
                       (init_k K ''kernel'' (ks @ [sum_list (map (\<lambda>a. last (shape a)) [a, b]), nf]))
                     = Inr (w, vs1)" by simp
  from cc have cc': "(if length [a, b] = 1 then Inr (hd [a, b])
                      else array_ops_concat (int (rank (hd [a, b])) - 1) [a, b]) = Inr x" by simp
  have "conv K [a, b] ks nf bias bias_start vs = Inr (r, vs')"
    unfolding eq gv' by (simp add: cc ca' ab)
  with srr sr show ?thesis by simp
qed

lemma call_returns:
  assumes init: "ConvLSTMCell_init ishp oc ks ub sk fb = Inr c"
    and ks: "length ks \<in> {1, 2, 3}"
    and i: "shape inputs = bt # sp @ [ic]" and h: "shape hidden = bt # sp @ [hc]"
    and cl: "shape cell = bt # sp @ [oc]"
    and sp: "length sp = length ks"
    and kv: "vs ''kernel'' = None \<or> (\<exists>v. vs ''kernel'' = Some v \<and> shape v = ks @ [ic + hc, 4 * oc])"
    and bv: "vs ''biases'' = None \<or> (\<exists>v. vs ''biases'' = Some v \<and> shape v = [4 * oc])"
  shows "\<exists>output new_cell vs'. call K c inputs (cell, hidden) vs = Inr ((output, new_cell, output), vs')"
proof -
  note f = ConvLSTMCell_init_fields[OF init]
  let ?g = "bt # sp @ [oc]"
  let ?ax = "length ks + 1"
  from conv_pair_returns[OF ks i h sp kv bv, of K ub 0] f obtain r vs1 where
    cv: "conv K [inputs, hidden] (kernel_shape c) (4 * output_channels c) (use_bias c) 0 vs = Inr (r, vs1)"
    and sr: "shape r = bt # sp @ [4 * oc]"
    by auto
  define G where "G j = \<lparr>shape = ?g, data = (\<lambda>idx. data r (idx[?ax := idx ! ?ax + j * oc]))\<rparr>" for j
  from sr sp have ax: "norm_axis (int (conv_ndims c) + 1) (rank r) = Some ?ax"
    by (simp add: norm_axis_def rank_def f)
  from sr sp have "shape r ! ?ax = 4 * oc" and "(shape r)[?ax := oc] = ?g"
    by (simp_all add: nth_append list_update_append)
  with ax have split: "array_ops_split r 4 (int (conv_ndims c) + 1) = Inr [G 0, G 1, G 2, G 3]"
    by (simp add: array_ops_split_def Let_def upt_4 G_def)
  have shG: "shape (G j) = ?g" for j by (simp add: G_def)
  from cl shG broadcast_shape_refl[of ?g] obtain new_cell0 where
    n0: "tensor_binop (*) (math_ops_sigmoid K (tensor_map (\<lambda>x. x + forget_bias c) (G 2))) cell = Inr new_cell0"
    and s0: "shape new_cell0 = ?g"
    by (simp add: tensor_binop_def math_ops_sigmoid_def tensor_map_def)
  from shG broadcast_shape_refl[of ?g] obtain incr where
    inc: "tensor_binop (*) (math_ops_sigmoid K (G 0)) (math_ops_tanh K (G 1)) = Inr incr"
    and si: "shape incr = ?g"
    by (simp add: tensor_binop_def math_ops_sigmoid_def math_ops_tanh_def tensor_map_def)
  from s0 si broadcast_shape_refl[of ?g] obtain new_cell where
    nc: "tensor_binop (+) new_cell0 incr = Inr new_cell" and sn: "shape new_cell = ?g"
    by (simp add: tensor_binop_def)
  from sn shG broadcast_shape_refl[of ?g] obtain output0 where
    o0: "tensor_binop (*) (math_ops_tanh K new_cell) (math_ops_sigmoid K (G 3)) = Inr output0"
    and so: "shape output0 = ?g"
    by (simp add: tensor_binop_def math_ops_sigmoid_def math_ops_tanh_def tensor_map_def)
  have "\<exists>output. (if skip_connection c then array_ops_concat (- 1) [output0, inputs]
                   else Inr output0) = Inr output"
  proof (cases "skip_connection c")
    case False
    then show ?thesis by simp
  next
    case True
    from so i concat_pair_last[of output0 "bt # sp" oc inputs ic] True show ?thesis by auto
  qed
  then obtain outp where
    out: "(if skip_connection c then array_ops_concat (- 1) [output0, inputs] else Inr output0) = Inr outp"
    by blast
  from call_unfold[OF cv split, of cell] n0 inc nc o0 out show ?thesis by simp
qed

lemmas eval_defs = call_def conv_def add_bias_def get_variable_def select_conv_def conv_apply_def
  spatial_strides_def conv_ndim_def out_extent_def array_ops_split_def array_ops_concat_def
  concat2_def norm_axis_def rank_def tensor_binop_def broadcast_shape_def bcast_index_def
  tensor_map_def math_ops_sigmoid_def math_ops_tanh_def array_ops_zeros_def zero_state_def
  example_kernels_def example_cell_def example_inputs_def const_tensor_def Let_def upt_4

lemma example_cell_init:
  "ConvLSTMCell_init [2, 2] oc [1] True sk 1 = Inr (example_cell sk oc)"
  by (simp add: ConvLSTMCell_init_def example_cell_def Let_def)

section \<open>Properties of convolutional\_lstm.py\<close>

text \<open>
  C1. The claim: constructing a cell with a \<open>kernel_shape\<close> of length 0, or of length 4 or
  more, fails with a configuration error. The docstring of \<^verbatim>\<open>__init__\<close> describes
  \<open>kernel_shape\<close> as of size 1, 2 or 3 and announces a \<^verbatim>\<open>ValueError\<close> when
  \<open>input_shape\<close> is incompatible with \<open>conv_ndims\<close>, but the body has no check: for an
  input shape with two spatial axes, a kernel shape of length 0 and one of length 4 are both
  accepted, and \<open>conv_ndims\<close> is recorded as 0 and as 4.
\<close>

theorem init_accepts_any_kernel_shape:
  "ConvLSTMCell_init [8, 8, 3] 4 [] True False (1::real)
     = Inr \<lparr>conv_ndims = 0, input_shape = [8, 8, 3], output_channels = 4, kernel_shape = [],
            use_bias = True, forget_bias = 1, skip_connection = False, total_output_channels = 4\<rparr>
   \<and> ConvLSTMCell_init [8, 8, 3] 4 [3, 3, 3, 3] True False (1::real)
     = Inr \<lparr>conv_ndims = 4, input_shape = [8, 8, 3], output_channels = 4, kernel_shape = [3, 3, 3, 3],
            use_bias = True, forget_bias = 1, skip_connection = False, total_output_channels = 4\<rparr>"
  by (simp add: ConvLSTMCell_init_def Let_def)

text \<open>
  C2. For a cell built by \<^verbatim>\<open>__init__\<close>: the step returns on every input, hidden state
  and cell memory of one batch size and the same spatial extents, as many of these as the
  kernel shape has, when the cell memory has \<open>output_channels\<close> channels and the variables of
  the scope are new or of the expected shapes. For every input and previous state on which
  the step returns, the combined convolution of input and hidden state has
  \<open>4 * output_channels\<close> channels; they are cut along the channel axis into four equal parts,
  in the order input gate (part 0), new input (part 1), forget gate (part 2), output gate
  (part 3); every element of the new cell memory is
  \<open>sigmoid (forget_gate + forget_bias) * cell + sigmoid input_gate * tanh new_input\<close>, and every
  element of the output before the skip concatenation is
  \<open>tanh new_cell * sigmoid output_gate\<close>. Where the cell memory has another shape than the
  gates, each operand is read at the position that broadcasting assigns to it.
\<close>

theorem call_gate_equations:
  assumes init: "ConvLSTMCell_init ishp oc ks ub sk fb = Inr c"
  shows "(length ks \<in> {1, 2, 3} \<and> length sp = length ks
          \<and> shape inputs = bt # sp @ [ic] \<and> shape hidden = bt # sp @ [hc]
          \<and> shape cell = bt # sp @ [oc]
          \<and> (vs ''kernel'' = None \<or> (\<exists>v. vs ''kernel'' = Some v \<and> shape v = ks @ [ic + hc, 4 * oc]))
          \<and> (vs ''biases'' = None \<or> (\<exists>v. vs ''biases'' = Some v \<and> shape v = [4 * oc]))
         \<longrightarrow> (\<exists>output new_cell vs'.
                call K c inputs (cell, hidden) vs = Inr ((output, new_cell, output), vs')))
    \<and> (\<forall>output new_cell new_hidden vs'.
          call K c inputs (cell, hidden) vs = Inr ((output, new_cell, new_hidden), vs') \<longrightarrow>
          (\<exists>r gated.
              conv K [inputs, hidden] ks (4 * oc) ub 0 vs = Inr (r, vs')
            \<and> shape r = butlast (shape inputs) @ [4 * oc]
            \<and> broadcast_shape (butlast (shape inputs) @ [oc]) (shape cell) = Some (shape new_cell)
            \<and> shape gated = shape new_cell
            \<and> (\<forall>idx. in_range (shape new_cell) idx \<longrightarrow>
                  data new_cell idx =
                    sigmoid_k K (gate_part r oc 2 (bcast_index (butlast (shape inputs) @ [oc]) idx) + fb)
                      * data cell (bcast_index (shape cell) idx)
                    + sigmoid_k K (gate_part r oc 0 (bcast_index (butlast (shape inputs) @ [oc]) idx))
                      * tanh_k K (gate_part r oc 1 (bcast_index (butlast (shape inputs) @ [oc]) idx)))
            \<and> (\<forall>idx. in_range (shape new_cell) idx \<longrightarrow>
                  data gated idx =
                    tanh_k K (data new_cell idx)
                      * sigmoid_k K (gate_part r oc 3 (bcast_index (butlast (shape inputs) @ [oc]) idx)))
            \<and> (if sk then array_ops_concat (- 1) [gated, inputs] = Inr output else output = gated)))"
    (is "(?valid \<longrightarrow> ?returns) \<and> (\<forall>output new_cell new_hidden vs'. _ \<longrightarrow> ?props output new_cell vs')")
proof (rule conjI)
  show "?valid \<longrightarrow> ?returns"
  proof (rule impI)
    assume a: ?valid
    then have ks: "length ks \<in> {1, 2, 3}" and sp: "length sp = length ks"
      and i: "shape inputs = bt # sp @ [ic]" and h: "shape hidden = bt # sp @ [hc]"
      and cl: "shape cell = bt # sp @ [oc]"
      and kv: "vs ''kernel'' = None \<or> (\<exists>v. vs ''kernel'' = Some v \<and> shape v = ks @ [ic + hc, 4 * oc])"
      and bv: "vs ''biases'' = None \<or> (\<exists>v. vs ''biases'' = Some v \<and> shape v = [4 * oc])"
      by blast+
    from call_returns[OF init ks i h cl sp kv bv] show ?returns .
  qed
next
  show "\<forall>output new_cell new_hidden vs'.
          call K c inputs (cell, hidden) vs = Inr ((output, new_cell, new_hidden), vs') \<longrightarrow>
          ?props output new_cell vs'"
  proof (intro allI impI)
    fix outp new_cell new_hidden vs'
    assume "call K c inputs (cell, hidden) vs = Inr ((outp, new_cell, new_hidden), vs')"
    from call_Inr_gates[OF init this] show "?props outp new_cell vs'" .
  qed
qed

text \<open>
  An instance: two output channels, forget bias 1, cell memory 7 everywhere. At position 1,
  channel 1 the forget gate is channel 5 of the convolution result, the input gate channel 1
  and the new input channel 3.
\<close>

theorem call_gate_equations_witness:
  "ConvLSTMCell_init [2, 2] 2 [1] True False 1 = Inr (example_cell False 2)
   \<and> \<not> isl (call example_kernels (example_cell False 2) example_inputs
              (const_tensor [1, 2, 2] 7, const_tensor [1, 2, 2] 0) Map.empty)
   \<and> data (call_new_cell (call example_kernels (example_cell False 2) example_inputs
              (const_tensor [1, 2, 2] 7, const_tensor [1, 2, 2] 0) Map.empty)) [0, 1, 1]
       = 1 / (1 + exp (- 6)) * 7 + 1 / (1 + exp (- 1)) * tanh 3"
proof -
  let ?cell = "const_tensor [1, 2, 2] (7::real)"
  let ?hidden = "const_tensor [1, 2, 2] (0::real)"
  let ?res = "call example_kernels (example_cell False 2) example_inputs (?cell, ?hidden) Map.empty"
  let ?g = "butlast (shape example_inputs) @ [2]"
  note t = call_gate_equations[OF example_cell_init, where K = example_kernels
             and inputs = example_inputs and cell = ?cell and hidden = ?hidden and vs = Map.empty
             and sp = "[2]" and bt = 1 and ic = 2 and hc = 2]
  have valid: "length [1::nat] \<in> {1, 2, 3} \<and> length [2::nat] = length [1::nat]
          \<and> shape example_inputs = 1 # [2] @ [2] \<and> shape ?hidden = 1 # [2] @ [2]
          \<and> shape ?cell = 1 # [2] @ [2]
          \<and> ((Map.empty :: real var_scope) ''kernel'' = None
               \<or> (\<exists>v. (Map.empty :: real var_scope) ''kernel'' = Some v \<and> shape v = [1] @ [2 + 2, 4 * 2]))
          \<and> ((Map.empty :: real var_scope) ''biases'' = None
               \<or> (\<exists>v. (Map.empty :: real var_scope) ''biases'' = Some v \<and> shape v = [4 * 2]))"
    by (simp add: example_inputs_def const_tensor_def)
  with t have "\<exists>outp new_cell vs'. ?res = Inr ((outp, new_cell, outp), vs')" by blast
  then have ok: "\<not> isl ?res" by auto
  from conjunct2[OF t, rule_format, OF call_projections[OF ok]]
  obtain r where
    cv: "conv example_kernels [example_inputs, ?hidden] [1] (4 * 2) True 0 Map.empty
           = Inr (r, snd (projr ?res))"
    and bs: "broadcast_shape ?g (shape ?cell) = Some (shape (call_new_cell ?res))"
    and eq: "\<And>idx. in_range (shape (call_new_cell ?res)) idx \<Longrightarrow>
          data (call_new_cell ?res) idx =
            sigmoid_k example_kernels (gate_part r 2 2 (bcast_index ?g idx) + 1)
              * data ?cell (bcast_index (shape ?cell) idx)
            + sigmoid_k example_kernels (gate_part r 2 0 (bcast_index ?g idx))
              * tanh_k example_kernels (gate_part r 2 1 (bcast_index ?g idx))"
    by blast
  from bs have sh: "shape (call_new_cell ?res) = [1, 2, 2]"
    by (simp add: eval_defs)
  have r: "r = fst (projr (conv example_kernels [example_inputs, ?hidden] [1] 8 True 0 Map.empty))"
    using cv by simp
  have gates: "gate_part r 2 j [0, 1, 1] = real (1 + j * 2)" for j
    unfolding r by (simp add: eval_defs gate_part_def)
  have "in_range (shape (call_new_cell ?res)) [0, 1, 1]" unfolding sh by (simp add: in_range_def)
  from eq[OF this] gates
  have "data (call_new_cell ?res) [0, 1, 1] = 1 / (1 + exp (- 6)) * 7 + 1 / (1 + exp (- 1)) * tanh 3"
    by (simp add: eval_defs)
  with ok example_cell_init show ?thesis by simp
qed

text \<open>
  C5. The claim: with skip connection the step output has
  \<open>output_channels + input_channels\<close> channels, as \<^verbatim>\<open>output_size\<close> declares, and
  the docstring of \<^verbatim>\<open>__init__\<close> calls \<open>output_channels\<close> the number of output
  channels of the cell, to which the skip connection concatenates the input.
  \<^verbatim>\<open>zero_state\<close> however builds the cell memory with the total number of output
  channels where \<^verbatim>\<open>state_size\<close> declares \<open>output_channels\<close>, and
  \<^verbatim>\<open>call\<close> does not check the state it is given. For a cell with one output
  channel, two input channels and skip connection, stepped from its own zero state: the
  cell memory passed in has three channels, the product with the one-channel forget gate is
  broadcast to three channels, and the output, these three channels and the two of the
  input, has five channels where \<^verbatim>\<open>output_size\<close> declares three.
\<close>

theorem step_from_zero_state_output_channels:
  "ConvLSTMCell_init [2, 2] 1 [1] True True 1 = Inr (example_cell True 1)
   \<and> shape example_inputs = [1, 2, 2]
   \<and> shape (fst (zero_state (example_cell True 1) 1)) = [1, 2, 3]
   \<and> \<not> isl (call example_kernels (example_cell True 1) example_inputs
              (zero_state (example_cell True 1) 1) Map.empty)
   \<and> shape (call_output (call example_kernels (example_cell True 1) example_inputs
              (zero_state (example_cell True 1) 1) Map.empty)) = [1, 2, 5]
   \<and> output_size (example_cell True 1) = [2, 3]
   \<and> state_size (example_cell True 1) = [2, 1]
   \<and> output_channels (example_cell True 1) + last (input_shape (example_cell True 1)) = 3"
  by (intro conjI, rule example_cell_init)
     (simp_all add: eval_defs call_output_def output_size_def state_size_def)

text \<open>
  C6. For a cell that \<^verbatim>\<open>__init__\<close> has built, for every batch size and every element
  type, \<^verbatim>\<open>zero_state\<close> returns a pair of tensors whose elements are all zero and whose
  shape is the batch size, then the spatial extents of \<open>input_shape\<close>, then the effective
  number of output channels: \<open>output_channels\<close> plus the input's channels when the skip
  connection is on, \<open>output_channels\<close> otherwise.
\<close>

theorem zero_state_zero_shape:
  assumes "ConvLSTMCell_init ishp oc ks ub sk fb = Inr c"
  shows "\<exists>zero_cell zero_hidden.
           zero_state c batch = (zero_cell, zero_hidden)
         \<and> shape zero_cell = batch # butlast ishp @ [if sk then oc + last ishp else oc]
         \<and> shape zero_hidden = batch # butlast ishp @ [if sk then oc + last ishp else oc]
         \<and> (\<forall>idx. data zero_cell idx = (0::'a::zero))
         \<and> (\<forall>idx. data zero_hidden idx = (0::'a))"
  using ConvLSTMCell_init_fields[OF assms]
  by (simp add: zero_state_def array_ops_zeros_def Let_def)

text \<open>An instance: batch size 5, two positions, two output and two input channels, skip connection.\<close>

theorem zero_state_zero_shape_witness:
  "ConvLSTMCell_init [2, 2] 2 [1] True True 1 = Inr (example_cell True 2)
   \<and> shape (fst (zero_state (example_cell True 2) 5)) = [5, 2, 4]
   \<and> shape (snd (zero_state (example_cell True 2) 5)) = [5, 2, 4]
   \<and> data (fst (zero_state (example_cell True 2) 5)) [4, 1, 3] = 0"
proof -
  from zero_state_zero_shape[OF example_cell_init, of True 2 5]
  obtain zero_cell zero_hidden where
    "zero_state (example_cell True 2) 5 = (zero_cell, zero_hidden)"
    "shape zero_cell = 5 # butlast [2, 2] @ [if True then 2 + last [2, 2] else 2]"
    "shape zero_hidden = 5 # butlast [2, 2] @ [if True then 2 + last [2, 2] else 2]"
    "\<forall>idx. data zero_cell idx = 0"
    by blast
  with example_cell_init[of 2 True] show ?thesis by simp
qed

text \<open>
  C7. For every non-empty list of input tensors: if some tensor has a rank other than 3, 4
  or 5, or a rank other than the first tensor's, \<^verbatim>\<open>_conv\<close> fails with a
  \<^verbatim>\<open>ValueError\<close>. Otherwise it is one application of the convolution that the common
  rank selects, with stride 1 on every spatial axis and \<open>SAME\<close> padding, to the single input
  or to the concatenation of the inputs along the last axis, with a kernel variable of shape
  \<open>filter_size + [sum of the input channels, num_features]\<close>, followed by the optional bias;
  and whenever it returns, the result has the batch and spatial extents of the first input.
\<close>

theorem conv_rank_check_and_convolution:
  assumes ne: "args \<noteq> []"
  shows "((\<exists>a \<in> set args. rank a \<notin> {3, 4, 5} \<or> rank a \<noteq> rank (hd args)) \<longrightarrow>
            (\<exists>msg. conv K args fs nf b bs vs = Inl (ValueError msg)))
    \<and> ((\<forall>a \<in> set args. rank a \<in> {3, 4, 5} \<and> rank a = rank (hd args)) \<longrightarrow>
          (\<exists>op st. select_conv (rank (hd args)) = Inr (op, st)
             \<and> conv_ndim op + 2 = rank (hd args)
             \<and> spatial_strides op st = Some (replicate (conv_ndim op) 1)
             \<and> conv K args fs nf b bs vs =
                 (case get_variable vs ''kernel''
                         (fs @ [sum_list (map (\<lambda>a. last (shape a)) args), nf])
                         (init_k K ''kernel'' (fs @ [sum_list (map (\<lambda>a. last (shape a)) args), nf])) of
                    Inl e \<Rightarrow> Inl e
                  | Inr (w, vs1) \<Rightarrow>
                      (case (if length args = 1 then Inr (hd args)
                             else array_ops_concat (int (rank (hd args)) - 1) args) of
                         Inl e \<Rightarrow> Inl e
                       | Inr x \<Rightarrow>
                           (case conv_apply K op x w st SAME of
                              Inl e \<Rightarrow> Inl e
                            | Inr res \<Rightarrow> add_bias res nf b bs vs1)))))
    \<and> (\<forall>r vs'. conv K args fs nf b bs vs = Inr (r, vs') \<longrightarrow>
          shape r = butlast (shape (hd args)) @ [nf])"
  using conv_rank_error[of args K fs nf b bs vs] conv_rank_ok[OF ne, of K fs nf b bs vs]
    conv_Inr(4)[of K args fs nf b bs vs]
  by blast

text \<open>An instance of each case: ranks 3 and 4 together are refused; ranks 3 and 3 are convolved.\<close>

theorem conv_rank_check_and_convolution_witness:
  "[const_tensor [1, 2, 2] (5::real), const_tensor [1, 2, 4] 0] \<noteq> []
   \<and> conv example_kernels [const_tensor [1, 2, 2] 5, const_tensor [1, 2, 3, 4] 0] [1] 8 True 0 Map.empty
       = Inl (ValueError ''Conv Linear expects all args to be of same Dimensiton'')
   \<and> \<not> isl (conv example_kernels [const_tensor [1, 2, 2] 5, const_tensor [1, 2, 4] 0] [1] 8 True 0 Map.empty)
   \<and> shape (fst (projr (conv example_kernels [const_tensor [1, 2, 2] 5, const_tensor [1, 2, 4] 0]
                          [1] 8 True 0 Map.empty))) = [1, 2, 8]"
proof -
  let ?args = "[const_tensor [1, 2, 2] (5::real), const_tensor [1, 2, 4] 0]"
  let ?res = "conv example_kernels ?args [1] 8 True 0 Map.empty"
  have ne: "?args \<noteq> []" by simp
  have bad: "conv example_kernels [const_tensor [1, 2, 2] 5, const_tensor [1, 2, 3, 4] 0] [1] 8 True 0 Map.empty
       = Inl (ValueError ''Conv Linear expects all args to be of same Dimensiton'')"
    by (simp add: conv_def const_tensor_def)
  have ok: "\<not> isl ?res" by (simp add: eval_defs)
  then have "?res = Inr (fst (projr ?res), snd (projr ?res))" by (cases ?res) auto
  with conv_rank_check_and_convolution[OF ne, of example_kernels "[1]" 8 True 0 Map.empty]
  have "shape (fst (projr ?res)) = butlast (shape (hd ?args)) @ [8]" by blast
  then have "shape (fst (projr ?res)) = [1, 2, 8]" by (simp add: const_tensor_def)
  with ne bad ok show ?thesis by simp
qed

text \<open>
  C8, as amended. For a cell built with skip connection, at least two output channels and at
  least one input channel: the cell memory of the zero state has
  \<open>output_channels + input_channels\<close> channels, \<^verbatim>\<open>state_size\<close> reports
  \<open>output_channels\<close>, and every step that returns has a new cell memory of \<open>output_channels\<close>
  channels; the shape of the zero state's cell memory is neither the shape of a cell memory
  that a step returns nor that of one on which a step returns.
\<close>

theorem zero_state_cell_shape_mismatch:
  assumes init: "ConvLSTMCell_init ishp oc ks ub True fb = Inr c"
    and oc: "2 \<le> oc" and ic: "1 \<le> last ishp"
  shows "last (shape (fst (zero_state c batch))) = oc + last ishp
    \<and> last (state_size c) = oc
    \<and> (\<forall>K inputs cell hidden vs output new_cell new_hidden vs'.
          call K c inputs (cell, hidden) vs = Inr ((output, new_cell, new_hidden), vs') \<longrightarrow>
            last (shape new_cell) = oc
          \<and> shape new_cell \<noteq> shape (fst (zero_state c batch))
          \<and> shape cell \<noteq> shape (fst (zero_state c batch)))"
proof -
  note f = ConvLSTMCell_init_fields[OF init]
  from f have z: "shape (fst (zero_state c batch)) = batch # butlast ishp @ [oc + last ishp]"
    by (simp add: zero_state_def array_ops_zeros_def Let_def)
  then have lz: "last (shape (fst (zero_state c batch))) = oc + last ishp" by simp
  from f have ls: "last (state_size c) = oc" by (simp add: state_size_def)
  have step: "last (shape new_cell) = oc
          \<and> shape new_cell \<noteq> shape (fst (zero_state c batch))
          \<and> shape cell \<noteq> shape (fst (zero_state c batch))"
    if call: "call K c inputs (cell, hidden) vs = Inr ((outp, new_cell, new_hidden), vs')"
    for K inputs cell hidden vs outp new_cell new_hidden vs'
  proof -
    from f have nd: "conv_ndims c = length (kernel_shape c)" by simp
    from call_Inr[OF call nd] f have
      bs: "broadcast_shape (butlast (shape inputs) @ [oc]) (shape cell) = Some (shape new_cell)"
      by auto
    from oc have "oc \<noteq> 1 \<or> shape cell = butlast (shape inputs) @ [oc]" by simp
    from broadcast_shape_channels[OF bs this] have ln: "last (shape new_cell) = oc" .
    with lz ic have n1: "shape new_cell \<noteq> shape (fst (zero_state c batch))" by auto
    have "shape cell \<noteq> batch # butlast ishp @ [oc + last ishp]"
    proof
      assume "shape cell = batch # butlast ishp @ [oc + last ishp]"
      then have "shape cell = (batch # butlast ishp) @ [oc + last ishp]" by simp
      with bs have "last (shape new_cell)
                      = (if oc = oc + last ishp \<or> oc + last ishp = 1 then oc else oc + last ishp)"
        by (simp only: broadcast_shape_last)
      with ln oc ic show False by (simp split: if_splits)
    qed
    with z ln n1 show ?thesis by simp
  qed
  from lz ls step show ?thesis by blast
qed

text \<open>An instance: two output channels; a step on a cell memory of the declared state size.\<close>

theorem zero_state_cell_shape_mismatch_witness:
  "ConvLSTMCell_init [2, 2] 2 [1] True True 1 = Inr (example_cell True 2)
   \<and> (2::nat) \<le> 2 \<and> (1::nat) \<le> last [2, 2]
   \<and> \<not> isl (call example_kernels (example_cell True 2) example_inputs
              (const_tensor [1, 2, 2] 7, const_tensor [1, 2, 4] 0) Map.empty)
   \<and> last (shape (call_new_cell (call example_kernels (example_cell True 2) example_inputs
              (const_tensor [1, 2, 2] 7, const_tensor [1, 2, 4] 0) Map.empty))) = 2
   \<and> last (shape (fst (zero_state (example_cell True 2) 1))) = 4"
proof -
  let ?res = "call example_kernels (example_cell True 2) example_inputs
              (const_tensor [1, 2, 2] 7, const_tensor [1, 2, 4] 0) Map.empty"
  have ok: "\<not> isl ?res" by (simp add: eval_defs)
  have h2: "(2::nat) \<le> 2" and h3: "(1::nat) \<le> last [2, 2]" by simp_all
  note t = zero_state_cell_shape_mismatch[OF example_cell_init h2 h3, of 1]
  from t have a: "last (shape (fst (zero_state (example_cell True 2) 1))) = 4" by simp
  from t call_projections[OF ok] have "last (shape (call_new_cell ?res)) = 2" by blast
  with a ok example_cell_init show ?thesis by simp
qed

text \<open>
  The claim as stated fails for one output channel: the step accepts the zero state, whose
  cell memory has three channels, and returns a cell memory of that very shape, with three
  channels where \<open>output_channels\<close> is one.
\<close>

theorem zero_state_cell_shape_mismatch_counterexample:
  "ConvLSTMCell_init [2, 2] 1 [1] True True 1 = Inr (example_cell True 1)
   \<and> \<not> isl (call example_kernels (example_cell True 1) example_inputs
              (zero_state (example_cell True 1) 1) Map.empty)
   \<and> shape (call_new_cell (call example_kernels (example_cell True 1) example_inputs
              (zero_state (example_cell True 1) 1) Map.empty))
       = shape (fst (zero_state (example_cell True 1) 1))
   \<and> last (shape (call_new_cell (call example_kernels (example_cell True 1) example_inputs
              (zero_state (example_cell True 1) 1) Map.empty))) = 3
   \<and> output_channels (example_cell True 1) = 1"
  by (intro conjI, rule example_cell_init) (simp_all add: eval_defs call_new_cell_def)

section \<open>Lemmas about training\<close>

lemma shuffle_loop_props:
  "\<forall>i \<in> set js. i < length x \<Longrightarrow>
     mset (fst (shuffle_loop r x js)) = mset x
   \<and> length (fst (shuffle_loop r x js)) = length x
   \<and> pos (snd (shuffle_loop r x js)) = pos r + length js
   \<and> draws (snd (shuffle_loop r x js)) = draws r"
proof (induction js arbitrary: r x)
  case Nil
  show ?case by simp
next
  case (Cons i js)
  let ?j = "draws r (pos r) mod (i + 1)"
  let ?r = "r\<lparr>pos := pos r + 1\<rparr>"
  let ?x = "x[i := x ! ?j, ?j := x ! i]"
  have unfold: "shuffle_loop r x (i # js) = shuffle_loop ?r ?x js"
    by (simp add: randbelow_def)
  from Cons.prems have i: "i < length x" and js: "\<forall>i \<in> set js. i < length ?x" by simp_all
  have "?j < i + 1" by simp
  with i have j: "?j < length x" by linarith
  from i j have "mset ?x = mset x" by (simp add: mset_swap)
  with Cons.IH[OF js, of ?r] show ?case unfolding unfold by simp
qed

lemma shuffle_props:
  "mset (fst (shuffle r x)) = mset x"
  "length (fst (shuffle r x)) = length x"
  "pos (snd (shuffle r x)) = pos r + (length x - 1)"
  "draws (snd (shuffle r x)) = draws r"
  using shuffle_loop_props[of "rev [1..<length x]" x r]
  by (auto simp: shuffle_def)

lemma chunks_concat: "0 < n \<Longrightarrow> concat (chunks xs n) = xs"
proof (induction xs n rule: chunks.induct)
  case (1 xs n)
  show ?case
  proof (cases "xs = []")
    case True
    then show ?thesis by (simp add: chunks.simps)
  next
    case False
    with 1 show ?thesis by (subst chunks.simps) simp
  qed
qed

lemma chunks_length: "0 < n \<Longrightarrow> length (chunks xs n) = (length xs + n - 1) div n"
proof (induction xs n rule: chunks.induct)
  case (1 xs n)
  show ?case
  proof (cases "xs = []")
    case True
    with 1 show ?thesis by (simp add: chunks.simps)
  next
    case False
    with 1 have ih: "length (chunks (drop n xs) n) = (length xs - n + n - 1) div n" by simp
    show ?thesis
    proof (cases "length xs \<le> n")
      case True
      with False 1(2) have "(length xs + n - 1) div n = 1"
        by (cases xs) (auto simp: div_eq_dividend_iff Suc_le_eq le_div_geq)
      with True False 1(2) show ?thesis by (subst chunks.simps) (simp add: chunks.simps)
    next
      case False
      then have "length xs + n - 1 = (length xs - n + n - 1) + n" by simp
      then have "(length xs + n - 1) div n = Suc ((length xs - n + n - 1) div n)"
        using 1(2) by (metis add.commute div_add_self1 less_numeral_extra(3) plus_1_eq_Suc add.right_neutral add_Suc_right)
      with ih \<open>xs \<noteq> []\<close> 1(2) show ?thesis by (subst chunks.simps) simp
    qed
  qed
qed

lemma chunks_sizes:
  "0 < n \<Longrightarrow> c \<in> set (chunks xs n) \<Longrightarrow> 0 < length c \<and> length c \<le> n"
proof (induction xs n rule: chunks.induct)
  case (1 xs n)
  show ?case
  proof (cases "xs = []")
    case True
    with 1(3) show ?thesis by (simp add: chunks.simps)
  next
    case False
    with 1(2,3) have "c = take n xs \<or> c \<in> set (chunks (drop n xs) n)"
      by (subst (asm) chunks.simps) simp
    with 1(1)[OF _ 1(2)] False 1(2) show ?thesis by auto
  qed
qed

lemma chunks_full:
  "0 < n \<Longrightarrow> c \<in> set (butlast (chunks xs n)) \<Longrightarrow> length c = n"
proof (induction xs n rule: chunks.induct)
  case (1 xs n)
  show ?case
  proof (cases "xs = []")
    case True
    with 1(3) show ?thesis by (simp add: chunks.simps)
  next
    case False
    with 1(2) have u: "chunks xs n = take n xs # chunks (drop n xs) n"
      by (subst chunks.simps) simp
    show ?thesis
    proof (cases "chunks (drop n xs) n = []")
      case True
      with u 1(3) show ?thesis by simp
    next
      case ne: False
      then have "drop n xs \<noteq> []" by (auto simp: chunks.simps)
      then have "n < length xs" by simp
      with u ne 1(3) have "c = take n xs \<and> length (take n xs) = n \<or> c \<in> set (butlast (chunks (drop n xs) n))"
        by auto
      with 1(1)[OF _ 1(2)] False 1(2) show ?thesis by auto
    qed
  qed
qed

lemma chunks_last:
  "0 < n \<Longrightarrow> xs \<noteq> [] \<Longrightarrow>
     length (last (chunks xs n)) = (if length xs mod n = 0 then n else length xs mod n)"
proof (induction xs n rule: chunks.induct)
  case (1 xs n)
  from 1(2,3) have u: "chunks xs n = take n xs # chunks (drop n xs) n"
    by (subst chunks.simps) simp
  show ?case
  proof (cases "length xs \<le> n")
    case True
    then have "chunks (drop n xs) n = []" by (simp add: chunks.simps)
    with u True 1(2,3) show ?thesis by (cases "length xs = n") auto
  next
    case False
    then have ne: "drop n xs \<noteq> []" by simp
    with 1(2) have "chunks (drop n xs) n \<noteq> []" by (subst chunks.simps) simp
    with u have "last (chunks xs n) = last (chunks (drop n xs) n)" by simp
    moreover from False have "length xs mod n = (length xs - n) mod n"
      by (simp add: le_mod_geq)
    ultimately show ?thesis using 1(1)[OF _ 1(2) ne] 1(2,3) by simp
  qed
qed

lemma epoch_orders_length: "length (epoch_orders r x k) = k"
  by (induction k arbitrary: r x) (auto split: prod.splits)

lemma epoch_orders_mset: "o' \<in> set (epoch_orders r x k) \<Longrightarrow> mset o' = mset x \<and> length o' = length x"
proof (induction k arbitrary: r x)
  case 0
  then show ?case by simp
next
  case (Suc k)
  obtain x' r' where s: "shuffle r x = (x', r')" by (cases "shuffle r x")
  with shuffle_props(1,2)[of r x] have x': "mset x' = mset x" "length x' = length x" by simp_all
  from Suc.prems s have "o' = x' \<or> o' \<in> set (epoch_orders r' x' k)" by simp
  with Suc.IH[of r' x'] x' show ?case by auto
qed

lemma epoch_orders_nth:
  "k < n \<Longrightarrow>
     epoch_orders r x n ! k
       = fst (shuffle (rng_after r x k) (last (x # take k (epoch_orders r x n))))"
proof (induction n arbitrary: r x k)
  case 0
  then show ?case by simp
next
  case (Suc n)
  obtain x' r' where s: "shuffle r x = (x', r')" by (cases "shuffle r x")
  show ?case
  proof (cases k)
    case 0
    with s show ?thesis by simp
  next
    case (Suc k')
    with Suc.prems have "k' < n" by simp
    from Suc.IH[OF this, of r' x'] s Suc show ?thesis by simp
  qed
qed

lemma rng_after_pos:
  "pos (rng_after r x k) = pos r + k * (length x - 1) \<and> draws (rng_after r x k) = draws r"
proof (induction k arbitrary: r x)
  case 0
  show ?case by simp
next
  case (Suc k)
  obtain x' r' where s: "shuffle r x = (x', r')" by (cases "shuffle r x")
  with shuffle_props[of r x] have "length x' = length x" "pos r' = pos r + (length x - 1)"
    "draws r' = draws r" by simp_all
  with Suc.IH[of r' x'] s show ?case by simp
qed

lemma print_fields [simp]:
  "heap (print ws w) = heap w" "random (print ws w) = random w"
  "writer (print ws w) = writer w" "fed (print ws w) = fed w"
  by (simp_all add: print_def)

lemma run_optimizer_step:
  "run_optimizer G m x y = Inr (summary, m') \<Longrightarrow> step (session m') = step (session m) + 1"
  by (auto simp: run_optimizer_def split: if_splits sum.splits)

lemma run_optimizer_Inr:
  "run_optimizer G m x y = Inr (summary, m') \<Longrightarrow>
     \<exists>vars'. train_op G (session m) x y = Inr (summary, vars')
            \<and> session m' = \<lparr>variables = vars', step = step (session m) + 1\<rparr>"
  by (auto simp: run_optimizer_def split: if_splits sum.splits)

lemma optimizer_steps_append:
  "optimizer_steps G images labels (bs1 @ bs2) s =
     (case optimizer_steps G images labels bs1 s of
        Inl e \<Rightarrow> Inl e
      | Inr (recs1, s1) \<Rightarrow>
          (case optimizer_steps G images labels bs2 s1 of
             Inl e \<Rightarrow> Inl e
           | Inr (recs2, s2) \<Rightarrow> Inr (recs1 @ recs2, s2)))"
  by (induction bs1 arbitrary: s) (auto split: sum.splits)

lemma optimizer_steps_count:
  "optimizer_steps G images labels bs s = Inr (recs, s') \<Longrightarrow>
     length recs = length bs \<and> step s' = step s + of_nat (length bs)"
proof (induction bs arbitrary: s recs)
  case Nil
  then show ?case by simp
next
  case (Cons frames bs)
  from Cons.prems obtain x y summary vars' recs' where
    "optimizer_steps G images labels bs \<lparr>variables = vars', step = step s + 1\<rparr> = Inr (recs', s')"
    and "recs = (summary, sint (step s + 1)) # recs'"
    by (auto split: sum.splits)
  with Cons.IH[OF this(1)] show ?case by simp
qed

text \<open>The sessions that the steps go through, one after the other.\<close>

lemma optimizer_steps_trace:
  "optimizer_steps G images labels bs s = Inr (recs, s') \<Longrightarrow>
     \<exists>ss. length ss = Suc (length bs) \<and> hd ss = s \<and> last ss = s'
        \<and> (\<forall>k < length bs. \<exists>x y summary.
               np_take images (bs ! k) = Inr x
             \<and> np_take labels (bs ! k) = Inr y
             \<and> train_op G (ss ! k) x y = Inr (summary, variables (ss ! Suc k))
             \<and> step (ss ! Suc k) = step (ss ! k) + 1
             \<and> recs ! k = (summary, sint (step (ss ! Suc k))))"
proof (induction bs arbitrary: s recs)
  case Nil
  then have "length [s] = Suc (length ([] :: int list list)) \<and> hd [s] = s \<and> last [s] = s'"
    by simp
  then show ?case by (metis length_0_conv less_nat_zero_code list.size(3))
next
  case (Cons frames bs)
  from Cons.prems obtain x y summary vars' recs' where
    tx: "np_take images frames = Inr x" and ty: "np_take labels frames = Inr y"
    and t: "train_op G s x y = Inr (summary, vars')"
    and rest: "optimizer_steps G images labels bs \<lparr>variables = vars', step = step s + 1\<rparr>
                 = Inr (recs', s')"
    and recs: "recs = (summary, sint (step s + 1)) # recs'"
    by (auto split: sum.splits)
  let ?s1 = "\<lparr>variables = vars', step = step s + 1\<rparr>"
  from Cons.IH[OF rest] obtain ss where
    len: "length ss = Suc (length bs)" and hd: "hd ss = ?s1" and lst: "last ss = s'"
    and steps: "\<And>k. k < length bs \<Longrightarrow> \<exists>x y summary.
               np_take images (bs ! k) = Inr x
             \<and> np_take labels (bs ! k) = Inr y
             \<and> train_op G (ss ! k) x y = Inr (summary, variables (ss ! Suc k))
             \<and> step (ss ! Suc k) = step (ss ! k) + 1
             \<and> recs' ! k = (summary, sint (step (ss ! Suc k)))"
    by blast
  from len have ne: "ss \<noteq> []" by auto
  with hd have s0: "ss ! 0 = ?s1" by (simp add: hd_conv_nth)
  have 1: "length (s # ss) = Suc (length (frames # bs))" using len by simp
  have 2: "hd (s # ss) = s" by simp
  have 3: "last (s # ss) = s'" using ne lst by simp
  have 4: "\<exists>x y summary.
               np_take images ((frames # bs) ! k) = Inr x
             \<and> np_take labels ((frames # bs) ! k) = Inr y
             \<and> train_op G ((s # ss) ! k) x y = Inr (summary, variables ((s # ss) ! Suc k))
             \<and> step ((s # ss) ! Suc k) = step ((s # ss) ! k) + 1
             \<and> recs ! k = (summary, sint (step ((s # ss) ! Suc k)))"
    if k: "k < length (frames # bs)" for k
  proof (cases k)
    case 0
    with tx ty t s0 recs show ?thesis by simp
  next
    case (Suc j)
    with k have "j < length bs" by simp
    from steps[OF this] Suc recs show ?thesis by simp
  qed
  from 1 2 3 4 show ?case by blast
qed

lemma run_batches_Inr:
  "run_batches G images labels bs (m, w) = Inr (m', w') \<Longrightarrow>
     heap w' = heap w \<and> random w' = random w
   \<and> fed w' = fed w @ map snd bs
   \<and> (\<exists>recs. writer w' = writer w @ recs
         \<and> optimizer_steps G images labels (map snd bs) (session m) = Inr (recs, session m'))"
proof (induction bs arbitrary: m w)
  case Nil
  then show ?case by simp
next
  case (Cons b bs)
  obtain i frames where b: "b = (i, frames)" by (cases b)
  define w1 where "w1 = (if i mod 10 = 0 then print [''batch'', str_nat i] w else w)"
  from Cons.prems b obtain x y summary m1 where
    tx: "np_take images frames = Inr x" and ty: "np_take labels frames = Inr y"
    and ro: "run_optimizer G m x y = Inr (summary, m1)"
    and rest: "run_batches G images labels bs
                 (m1, w1\<lparr>writer := writer w1 @ [(summary, sint (step (session m1)))],
                          fed := fed w1 @ [frames]\<rparr>) = Inr (m', w')"
    by (auto simp: w1_def Let_def split: sum.splits)
  have w1: "heap w1 = heap w" "random w1 = random w" "writer w1 = writer w" "fed w1 = fed w"
    by (simp_all add: w1_def)
  from run_optimizer_Inr[OF ro] obtain vars' where
    t: "train_op G (session m) x y = Inr (summary, vars')"
    and m1: "session m1 = \<lparr>variables = vars', step = step (session m) + 1\<rparr>"
    by blast
  from m1 have st: "step (session m1) = step (session m) + 1" by simp
  from Cons.IH[OF rest] obtain recs where
    h: "heap w' = heap w" "random w' = random w"
    and f: "fed w' = fed w @ frames # map snd bs"
    and wr: "writer w' = (writer w @ [(summary, sint (step (session m1)))]) @ recs"
    and os: "optimizer_steps G images labels (map snd bs) (session m1) = Inr (recs, session m')"
    by (auto simp: w1)
  from tx ty t os m1
  have "optimizer_steps G images labels (map snd (b # bs)) (session m)
          = Inr ((summary, sint (step (session m) + 1)) # recs, session m')"
    by (simp add: b)
  moreover from wr st have "writer w' = writer w @ (summary, sint (step (session m) + 1)) # recs"
    by simp
  ultimately have "\<exists>recs. writer w' = writer w @ recs
         \<and> optimizer_steps G images labels (map snd (b # bs)) (session m) = Inr (recs, session m')"
    by blast
  with h f b show ?case by simp
qed

lemma run_epochs_Inr:
  assumes "run_epochs G images labels p B es (m, w) = Inr (m', w')"
    and "p < length (heap w)" and "0 < B"
  shows "heap w' = (heap w)[p := last (heap w ! p # epoch_orders (random w) (heap w ! p) (length es))]
   \<and> random w' = rng_after (random w) (heap w ! p) (length es)
   \<and> fed w' = fed w @ concat (map (\<lambda>ord. chunks ord B) (epoch_orders (random w) (heap w ! p) (length es)))
   \<and> step (session m') = step (session m) + of_nat (length es * ((length (heap w ! p) + B - 1) div B))
   \<and> length (writer w') = length (writer w) + length es * ((length (heap w ! p) + B - 1) div B)
   \<and> (\<exists>recs. writer w' = writer w @ recs
         \<and> optimizer_steps G images labels
             (concat (map (\<lambda>ord. chunks ord B) (epoch_orders (random w) (heap w ! p) (length es))))
             (session m) = Inr (recs, session m'))"
  using assms
proof (induction es arbitrary: m w)
  case Nil
  then show ?case by simp
next
  case (Cons e es)
  let ?x = "heap w ! p"
  obtain x' r' where s: "shuffle (random w) ?x = (x', r')" by (cases "shuffle (random w) ?x")
  define w3 where "w3 = print [''===============''] (print [''EPOCH'', str_nat (e + 1)] (print [''===============''] w))"
  define w4 where "w4 = w3\<lparr>heap := (heap w3)[p := x'], random := r'\<rparr>"
  have w3: "heap w3 = heap w" "random w3 = random w" "writer w3 = writer w" "fed w3 = fed w"
    by (simp_all add: w3_def)
  from Cons.prems(2) w3 have x4: "heap w4 ! p = x'" by (simp add: w4_def)
  have "run_epochs G images labels p B (e # es) (m, w) =
          (case run_batches G images labels
                  (zip [1..<Suc (length (chunks (heap w4 ! p) B))] (chunks (heap w4 ! p) B)) (m, w4) of
             Inl e \<Rightarrow> Inl e
           | Inr (m', w') \<Rightarrow> run_epochs G images labels p B es (m', w'))"
    using s by (simp add: Let_def w3_def w4_def)
  with Cons.prems(1) obtain m1 w5 where
    rb: "run_batches G images labels (zip [1..<Suc (length (chunks x' B))] (chunks x' B)) (m, w4) = Inr (m1, w5)"
    and rest: "run_epochs G images labels p B es (m1, w5) = Inr (m', w')"
    unfolding x4 by (auto split: sum.splits)
  have zs: "map snd (zip [1..<Suc (length (chunks x' B))] (chunks x' B)) = chunks x' B"
    by (simp add: map_snd_zip del: upt_Suc)
  from run_batches_Inr[OF rb] obtain recs1 where
    b: "heap w5 = heap w4" "random w5 = random w4" "fed w5 = fed w4 @ chunks x' B"
      "writer w5 = writer w4 @ recs1"
    and os1: "optimizer_steps G images labels (chunks x' B) (session m) = Inr (recs1, session m1)"
    unfolding zs by blast
  from optimizer_steps_count[OF os1] have c1: "length recs1 = length (chunks x' B)"
    and st1: "step (session m1) = step (session m) + of_nat (length (chunks x' B))"
    by simp_all
  from shuffle_props(2)[of "random w" ?x] s have lx: "length x' = length ?x" by simp
  have cl: "length (chunks x' B) = (length ?x + B - 1) div B"
    using chunks_length[OF Cons.prems(3), of x'] lx by simp
  have h5: "heap w5 = (heap w)[p := x']" "random w5 = r'" "fed w5 = fed w @ chunks x' B"
    "length (writer w5) = length (writer w) + (length ?x + B - 1) div B"
    "writer w5 = writer w @ recs1"
    using b w3 cl c1 by (simp_all add: w4_def)
  from Cons.prems(2) h5 have p5: "p < length (heap w5)" and x5: "heap w5 ! p = x'" by simp_all
  note ih0 = Cons.IH[OF rest p5 Cons.prems(3)]
  note ih1 = ih0[unfolded x5]
  note ih = ih1[unfolded h5(1) h5(2) h5(3) lx]
  let ?c = "(length ?x + B - 1) div B"
  have eo: "epoch_orders (random w) ?x (length (e # es)) = x' # epoch_orders r' x' (length es)"
    and ra: "rng_after (random w) ?x (length (e # es)) = rng_after r' x' (length es)"
    using s by simp_all
  from ih have "heap w' = (heap w)[p := last (x' # epoch_orders r' x' (length es))]"
    by simp
  then have 1: "heap w' = (heap w)[p := last (?x # epoch_orders (random w) ?x (length (e # es)))]"
    unfolding eo by simp
  from ih have 2: "random w' = rng_after (random w) ?x (length (e # es))"
    unfolding ra by simp
  from ih have 3: "fed w' = fed w @ concat (map (\<lambda>ord. chunks ord B)
                               (epoch_orders (random w) ?x (length (e # es))))"
    unfolding eo by simp
  from ih have "step (session m') = step (session m1) + of_nat (length es * ?c)" by blast
  with st1 cl have 4: "step (session m') = step (session m) + of_nat (length (e # es) * ?c)"
    by (simp add: algebra_simps)
  from ih h5(4) have 5: "length (writer w') = length (writer w) + length (e # es) * ?c"
    by simp
  from ih obtain recs2 where
    wr2: "writer w' = writer w5 @ recs2"
    and os2: "optimizer_steps G images labels
                (concat (map (\<lambda>ord. chunks ord B) (epoch_orders r' x' (length es))))
                (session m1) = Inr (recs2, session m')"
    by blast
  from os1 os2
  have "optimizer_steps G images labels
          (chunks x' B @ concat (map (\<lambda>ord. chunks ord B) (epoch_orders r' x' (length es))))
          (session m) = Inr (recs1 @ recs2, session m')"
    by (simp add: optimizer_steps_append)
  then have "optimizer_steps G images labels
          (concat (map (\<lambda>ord. chunks ord B) (epoch_orders (random w) ?x (length (e # es)))))
          (session m) = Inr (recs1 @ recs2, session m')"
    unfolding eo by simp
  moreover from wr2 h5(5) have "writer w' = writer w @ recs1 @ recs2" by simp
  ultimately have 6: "\<exists>recs. writer w' = writer w @ recs
         \<and> optimizer_steps G images labels
             (concat (map (\<lambda>ord. chunks ord B) (epoch_orders (random w) ?x (length (e # es)))))
             (session m) = Inr (recs, session m')"
    by blast
  from 1 2 3 4 5 6 show ?case by blast
qed

lemma run_epochs_heap:
  assumes "run_epochs G images labels p B es (m, w) = Inr (m', w')" and "p < length (heap w)"
  shows "length (heap w') = length (heap w)
       \<and> (\<forall>q. q \<noteq> p \<longrightarrow> heap w' ! q = heap w ! q)
       \<and> mset (heap w' ! p) = mset (heap w ! p)"
  using assms
proof (induction es arbitrary: m w)
  case Nil
  then show ?case by simp
next
  case (Cons e es)
  let ?x = "heap w ! p"
  obtain x' r' where s: "shuffle (random w) ?x = (x', r')" by (cases "shuffle (random w) ?x")
  define w3 where "w3 = print [''===============''] (print [''EPOCH'', str_nat (e + 1)] (print [''===============''] w))"
  define w4 where "w4 = w3\<lparr>heap := (heap w3)[p := x'], random := r'\<rparr>"
  have w3: "heap w3 = heap w" by (simp add: w3_def)
  have "run_epochs G images labels p B (e # es) (m, w) =
          (case run_batches G images labels
                  (zip [1..<Suc (length (chunks (heap w4 ! p) B))] (chunks (heap w4 ! p) B)) (m, w4) of
             Inl e \<Rightarrow> Inl e
           | Inr (m', w') \<Rightarrow> run_epochs G images labels p B es (m', w'))"
    using s by (simp add: Let_def w3_def w4_def)
  with Cons.prems(1) obtain m1 w5 where
    rb: "run_batches G images labels (zip [1..<Suc (length (chunks (heap w4 ! p) B))]
            (chunks (heap w4 ! p) B)) (m, w4) = Inr (m1, w5)"
    and rest: "run_epochs G images labels p B es (m1, w5) = Inr (m', w')"
    by (auto split: sum.splits)
  from run_batches_Inr[OF rb] w3 have h5: "heap w5 = (heap w)[p := x']" by (simp add: w4_def)
  with Cons.prems(2) have p5: "p < length (heap w5)" by simp
  from shuffle_props(1)[of "random w" ?x] s have "mset x' = mset ?x" by simp
  with Cons.IH[OF rest p5] h5 Cons.prems(2) show ?case by simp
qed

lemma train_Inr:
  assumes "train G m w images labels indices' epochs' batch_size' = Inr (m', w')"
  shows "(case indices' of None \<Rightarrow> shape images \<noteq> [] | Some a \<Rightarrow> a < length (heap w))
    \<and> can_write w (log_path m)
    \<and> run_epochs G images labels (length (heap w))
         (case batch_size' of None \<Rightarrow> batch_size m | Some b \<Rightarrow> b)
         [0..<(case epochs' of None \<Rightarrow> epochs m | Some e \<Rightarrow> e)]
         (m, print [''Training'']
               (w\<lparr>heap := heap w @ [case indices' of
                                        None \<Rightarrow> map int [0..<hd (shape images)]
                                      | Some a \<Rightarrow> heap w ! a]\<rparr>))
       = Inr (m', w')"
proof (cases indices')
  case None
  with assms obtain n where "np_len images = Inr n"
    by (auto simp: train_def split: sum.splits)
  then have "shape images \<noteq> []" "n = hd (shape images)"
    by (auto simp: np_len_def split: list.splits)
  with assms None \<open>np_len images = Inr n\<close> show ?thesis
    by (simp add: train_def new_list_def Let_def split: if_splits)
next
  case (Some a)
  with assms have "a < length (heap w)"
    by (auto simp: train_def split: if_splits)
  with assms Some show ?thesis
    by (simp add: train_def new_list_def Let_def split: if_splits)
qed

lemma train_Inr_batches:
  assumes tr: "train G m w images labels indices' epochs' batch_size' = Inr (m', w')"
    and E: "E = (case epochs' of None \<Rightarrow> epochs m | Some e \<Rightarrow> e)"
    and B: "B = (case batch_size' of None \<Rightarrow> batch_size m | Some b \<Rightarrow> b)"
    and Bpos: "0 < B"
    and idxs: "idxs = (case indices' of None \<Rightarrow> map int [0..<hd (shape images)]
                                       | Some a \<Rightarrow> heap w ! a)"
    and N: "N = length idxs"
  shows "length (epoch_orders (random w) idxs E) = E
    \<and> (\<forall>k < E. epoch_orders (random w) idxs E ! k
                  = fst (shuffle (rng_after (random w) idxs k)
                           (last (idxs # take k (epoch_orders (random w) idxs E))))
              \<and> pos (rng_after (random w) idxs k) = pos (random w) + k * (N - 1))
    \<and> (\<forall>ord \<in> set (epoch_orders (random w) idxs E).
          mset ord = mset idxs
        \<and> concat (chunks ord B) = ord
        \<and> length (chunks ord B) = (N + B - 1) div B
        \<and> (\<forall>c \<in> set (butlast (chunks ord B)). length c = B)
        \<and> (0 < N \<longrightarrow> length (last (chunks ord B)) = (if N mod B = 0 then B else N mod B)))
    \<and> fed w' = fed w @ concat (map (\<lambda>ord. chunks ord B) (epoch_orders (random w) idxs E))
    \<and> take (length (writer w)) (writer w') = writer w
    \<and> length (writer w') = length (writer w) + E * ((N + B - 1) div B)
    \<and> (\<exists>ss. length ss = Suc (E * ((N + B - 1) div B))
          \<and> hd ss = session m \<and> last ss = session m'
          \<and> (\<forall>k < E * ((N + B - 1) div B). \<exists>x y summary.
                 np_take images (fed w' ! (length (fed w) + k)) = Inr x
               \<and> np_take labels (fed w' ! (length (fed w) + k)) = Inr y
               \<and> train_op G (ss ! k) x y = Inr (summary, variables (ss ! Suc k))
               \<and> step (ss ! Suc k) = step (ss ! k) + 1
               \<and> writer w' ! (length (writer w) + k) = (summary, sint (step (ss ! Suc k)))))
    \<and> step (session m') = step (session m) + of_nat (E * ((N + B - 1) div B))
    \<and> pos (random w') = pos (random w) + E * (N - 1)"
proof -
  let ?w1 = "print [''Training''] (w\<lparr>heap := heap w @ [idxs]\<rparr>)"
  let ?p = "length (heap w)"
  let ?bs = "concat (map (\<lambda>ord. chunks ord B) (epoch_orders (random w) idxs E))"
  let ?T = "E * ((N + B - 1) div B)"
  from train_Inr[OF tr] have re: "run_epochs G images labels ?p B [0..<E] (m, ?w1) = Inr (m', w')"
    unfolding E B idxs by simp
  have p: "?p < length (heap ?w1)" and x: "heap ?w1 ! ?p = idxs" by simp_all
  note r = run_epochs_Inr[OF re p Bpos, unfolded x]
  have 1: "length (epoch_orders (random w) idxs E) = E" by (rule epoch_orders_length)
  have 2: "epoch_orders (random w) idxs E ! k
                  = fst (shuffle (rng_after (random w) idxs k)
                           (last (idxs # take k (epoch_orders (random w) idxs E))))
              \<and> pos (rng_after (random w) idxs k) = pos (random w) + k * (N - 1)"
    if "k < E" for k
    using epoch_orders_nth[OF that, of "random w" idxs] rng_after_pos[of "random w" idxs k]
    unfolding N by blast
  have 3: "mset ord = mset idxs
        \<and> concat (chunks ord B) = ord
        \<and> length (chunks ord B) = (N + B - 1) div B
        \<and> (\<forall>c \<in> set (butlast (chunks ord B)). length c = B)
        \<and> (0 < N \<longrightarrow> length (last (chunks ord B)) = (if N mod B = 0 then B else N mod B))"
    if "ord \<in> set (epoch_orders (random w) idxs E)" for ord
  proof -
    from epoch_orders_mset[OF that] N have m: "mset ord = mset idxs" and l: "length ord = N"
      by simp_all
    from l have ne: "0 < N \<longrightarrow> ord \<noteq> []" by auto
    from m l ne chunks_concat[OF Bpos, of ord] chunks_length[OF Bpos, of ord]
      chunks_full[OF Bpos, of _ ord] chunks_last[OF Bpos, of ord]
    show ?thesis by simp
  qed
  from r have 4: "fed w' = fed w @ ?bs"
    and 5: "length (writer w') = length (writer w) + ?T"
    and 6: "step (session m') = step (session m) + of_nat ?T"
    and rw: "random w' = rng_after (random w) idxs E"
    by (simp_all add: N)
  from r obtain recs where wr: "writer w' = writer w @ recs"
    and os: "optimizer_steps G images labels ?bs (session m) = Inr (recs, session m')"
    by auto
  from wr have 8: "take (length (writer w)) (writer w') = writer w" by simp
  from wr 5 have lr: "length recs = ?T" by simp
  with optimizer_steps_count[OF os] have lb: "length ?bs = ?T" by simp
  from optimizer_steps_trace[OF os] obtain ss where
    len: "length ss = Suc (length ?bs)" and hd: "hd ss = session m" and lst: "last ss = session m'"
    and steps: "\<And>k. k < length ?bs \<Longrightarrow> \<exists>x y summary.
               np_take images (?bs ! k) = Inr x
             \<and> np_take labels (?bs ! k) = Inr y
             \<and> train_op G (ss ! k) x y = Inr (summary, variables (ss ! Suc k))
             \<and> step (ss ! Suc k) = step (ss ! k) + 1
             \<and> recs ! k = (summary, sint (step (ss ! Suc k)))"
    by blast
  have "\<exists>x y summary.
                 np_take images (fed w' ! (length (fed w) + k)) = Inr x
               \<and> np_take labels (fed w' ! (length (fed w) + k)) = Inr y
               \<and> train_op G (ss ! k) x y = Inr (summary, variables (ss ! Suc k))
               \<and> step (ss ! Suc k) = step (ss ! k) + 1
               \<and> writer w' ! (length (writer w) + k) = (summary, sint (step (ss ! Suc k)))"
    if "k < ?T" for k
  proof -
    from that lb have k: "k < length ?bs" by simp
    have "fed w' ! (length (fed w) + k) = ?bs ! k" unfolding 4 by simp
    moreover have "writer w' ! (length (writer w) + k) = recs ! k" unfolding wr by simp
    ultimately show ?thesis using steps[OF k] by simp
  qed
  with len lb hd lst
  have 9: "\<exists>ss. length ss = Suc ?T \<and> hd ss = session m \<and> last ss = session m'
          \<and> (\<forall>k < ?T. \<exists>x y summary.
                 np_take images (fed w' ! (length (fed w) + k)) = Inr x
               \<and> np_take labels (fed w' ! (length (fed w) + k)) = Inr y
               \<and> train_op G (ss ! k) x y = Inr (summary, variables (ss ! Suc k))
               \<and> step (ss ! Suc k) = step (ss ! k) + 1
               \<and> writer w' ! (length (writer w) + k) = (summary, sint (step (ss ! Suc k))))"
    by (intro exI[of _ ss]) simp
  from rw rng_after_pos[of "random w" idxs E] N
  have 7: "pos (random w') = pos (random w) + E * (N - 1)" by simp
  from 1 2 3 4 8 5 9 6 7 show ?thesis by blast
qed

lemma chunks_subset: "c \<in> set (chunks xs n) \<Longrightarrow> set c \<subseteq> set xs"
proof (induction xs n rule: chunks.induct)
  case (1 xs n)
  show ?case
  proof (cases "n = 0 \<or> xs = []")
    case True
    with 1(2) show ?thesis by (simp add: chunks.simps)
  next
    case False
    with 1(2) have "c = take n xs \<or> c \<in> set (chunks (drop n xs) n)"
      by (subst (asm) chunks.simps) simp
    then show ?thesis
    proof
      assume "c = take n xs"
      then show ?thesis by (auto dest: in_set_takeD)
    next
      assume "c \<in> set (chunks (drop n xs) n)"
      from 1(1)[OF False this] show ?thesis by (auto dest: in_set_dropD)
    qed
  qed
qed

lemma np_take_ok:
  assumes "shape a = n # rest" and "\<forall>j \<in> set frames. - int n \<le> j \<and> j < int n"
  shows "\<exists>x. np_take a frames = Inr x \<and> shape x = length frames # rest"
  using assms by (simp add: np_take_def list_all_iff)

lemma run_optimizer_dims:
  "run_optimizer G m x y = Inr (summary, m') \<Longrightarrow>
     height m' = height m \<and> width m' = width m \<and> depth m' = depth m"
  by (auto simp: run_optimizer_def split: if_splits sum.splits)

lemma run_batches_returns:
  assumes ops: "\<forall>s x y. \<exists>r. train_op G s x y = Inr r"
    and im: "shape images = n # [height m, width m, depth m]"
    and lb: "shape labels = n # [height m, width m]"
    and fr: "\<forall>b \<in> set bs. \<forall>j \<in> set (snd b). - int n \<le> j \<and> j < int n"
  shows "\<exists>m' w'. run_batches G images labels bs (m, w) = Inr (m', w')
           \<and> height m' = height m \<and> width m' = width m \<and> depth m' = depth m"
  using im lb fr
proof (induction bs arbitrary: m w)
  case Nil
  then show ?case by simp
next
  case (Cons b bs)
  obtain i frames where b: "b = (i, frames)" by (cases b)
  with Cons.prems(3) have v: "\<forall>j \<in> set frames. - int n \<le> j \<and> j < int n"
    and rest: "\<forall>b \<in> set bs. \<forall>j \<in> set (snd b). - int n \<le> j \<and> j < int n"
    by simp_all
  from np_take_ok[OF Cons.prems(1) v] obtain x where
    x: "np_take images frames = Inr x" "shape x = length frames # [height m, width m, depth m]"
    by blast
  from np_take_ok[OF Cons.prems(2) v] obtain y where
    y: "np_take labels frames = Inr y" "shape y = length frames # [height m, width m]"
    by blast
  from ops obtain summary vars' where t: "train_op G (session m) x y = Inr (summary, vars')"
    by (metis surj_pair)
  define m1 where "m1 = m\<lparr>session := \<lparr>variables = vars', step = step (session m) + 1\<rparr>\<rparr>"
  from x(2) y(2) t have ro: "run_optimizer G m x y = Inr (summary, m1)"
    by (simp add: run_optimizer_def feed_ok_def m1_def)
  have d: "height m1 = height m" "width m1 = width m" "depth m1 = depth m"
    by (simp_all add: m1_def)
  from Cons.prems(1,2) d have im1: "shape images = n # [height m1, width m1, depth m1]"
    and lb1: "shape labels = n # [height m1, width m1]" by simp_all
  from Cons.IH[OF im1 lb1 rest] d b x(1) y(1) ro show ?case
    by (simp add: Let_def)
qed

lemma run_epochs_returns:
  assumes ops: "\<forall>s x y. \<exists>r. train_op G s x y = Inr r"
    and im: "shape images = n # [height m, width m, depth m]"
    and lb: "shape labels = n # [height m, width m]"
    and p: "p < length (heap w)"
    and v: "\<forall>j \<in> set (heap w ! p). - int n \<le> j \<and> j < int n"
  shows "\<exists>m' w'. run_epochs G images labels p B es (m, w) = Inr (m', w')"
  using im lb p v
proof (induction es arbitrary: m w)
  case Nil
  then show ?case by simp
next
  case (Cons e es)
  let ?x = "heap w ! p"
  obtain x' r' where s: "shuffle (random w) ?x = (x', r')" by (cases "shuffle (random w) ?x")
  define w3 where "w3 = print [''===============''] (print [''EPOCH'', str_nat (e + 1)] (print [''===============''] w))"
  define w4 where "w4 = w3\<lparr>heap := (heap w3)[p := x'], random := r'\<rparr>"
  have w3: "heap w3 = heap w" by (simp add: w3_def)
  from Cons.prems(3) w3 have x4: "heap w4 ! p = x'" by (simp add: w4_def)
  have unf: "run_epochs G images labels p B (e # es) (m, w) =
          (case run_batches G images labels
                  (zip [1..<Suc (length (chunks (heap w4 ! p) B))] (chunks (heap w4 ! p) B)) (m, w4) of
             Inl e \<Rightarrow> Inl e
           | Inr (m', w') \<Rightarrow> run_epochs G images labels p B es (m', w'))"
    using s by (simp add: Let_def w3_def w4_def)
  from shuffle_props(1)[of "random w" ?x] s have "set x' = set ?x"
    by (metis fst_conv mset_eq_setD)
  with Cons.prems(4) have vx: "\<forall>j \<in> set x'. - int n \<le> j \<and> j < int n" by simp
  have fr: "\<forall>b \<in> set (zip [1..<Suc (length (chunks x' B))] (chunks x' B)).
              \<forall>j \<in> set (snd b). - int n \<le> j \<and> j < int n"
  proof
    fix b assume "b \<in> set (zip [1..<Suc (length (chunks x' B))] (chunks x' B))"
    then have "snd b \<in> set (chunks x' B)" by (metis in_set_zipE prod.collapse)
    from chunks_subset[OF this] vx show "\<forall>j \<in> set (snd b). - int n \<le> j \<and> j < int n" by blast
  qed
  from run_batches_returns[OF ops Cons.prems(1,2) fr, of w4] obtain m1 w5 where
    rb: "run_batches G images labels (zip [1..<Suc (length (chunks x' B))] (chunks x' B)) (m, w4)
           = Inr (m1, w5)"
    and d: "height m1 = height m" "width m1 = width m" "depth m1 = depth m"
    by blast
  from run_batches_Inr[OF rb] w3 have h5: "heap w5 = (heap w)[p := x']" by (simp add: w4_def)
  with Cons.prems(3) have p5: "p < length (heap w5)" and x5: "heap w5 ! p = x'" by simp_all
  from Cons.prems(1,2) d have im1: "shape images = n # [height m1, width m1, depth m1]"
    and lb1: "shape labels = n # [height m1, width m1]" by simp_all
  from vx x5 have v5: "\<forall>j \<in> set (heap w5 ! p). - int n \<le> j \<and> j < int n" by simp
  from Cons.IH[OF im1 lb1 p5 v5] rb show ?case unfolding unf x4 by simp
qed

lemma train_returns:
  assumes ops: "\<forall>s x y. \<exists>r. train_op G s x y = Inr r"
    and im: "shape images = n # [height m, width m, depth m]"
    and lb: "shape labels = n # [height m, width m]"
    and ix: "case indices' of None \<Rightarrow> True
             | Some a \<Rightarrow> a < length (heap w) \<and> (\<forall>j \<in> set (heap w ! a). - int n \<le> j \<and> j < int n)"
    and cw: "can_write w (log_path m)"
  shows "\<exists>m' w'. train G m w images labels indices' epochs' batch_size' = Inr (m', w')"
proof -
  let ?idxs = "case indices' of None \<Rightarrow> map int [0..<n] | Some a \<Rightarrow> heap w ! a"
  let ?w1 = "print [''Training''] (w\<lparr>heap := heap w @ [?idxs]\<rparr>)"
  let ?p = "length (heap w)"
  have p: "?p < length (heap ?w1)" and x: "heap ?w1 ! ?p = ?idxs" by simp_all
  from ix have "\<forall>j \<in> set ?idxs. - int n \<le> j \<and> j < int n"
    by (cases indices') auto
  with x have v: "\<forall>j \<in> set (heap ?w1 ! ?p). - int n \<le> j \<and> j < int n" by simp
  from run_epochs_returns[OF ops im lb p v] obtain m' w' where
    "run_epochs G images labels ?p
       (case batch_size' of None \<Rightarrow> batch_size m | Some b \<Rightarrow> b)
       [0..<(case epochs' of None \<Rightarrow> epochs m | Some e \<Rightarrow> e)] (m, ?w1) = Inr (m', w')"
    by blast
  with im ix cw show ?thesis
    by (cases indices') (auto simp: train_def new_list_def np_len_def Let_def)
qed

lemma example_orders:
  "epoch_orders \<lparr>draws = (\<lambda>k. k + 1), pos = 0\<rparr> [0, 1, 2 :: int] 2 = [[2, 0, 1], [0, 1, 2]]"
  by code_simp

lemma example_chunks:
  "chunks [2, 0, 1 :: int] 2 = [[2, 0], [1]]" "chunks [0, 1, 2 :: int] 2 = [[0, 1], [2]]"
  by code_simp+

lemma example_train_one_epoch:
  "\<not> isl (train example_graph example_model example_world example_images example_labels
            (Some 0) (Some 1) (Some 2))"
  "heap (snd (projr (train example_graph example_model example_world example_images
                       example_labels (Some 0) (Some 1) (Some 2)))) ! 1 = [2, 0, 1]"
  by code_simp+

section \<open>Lemmas about prediction and checkpoints\<close>

lemma predict_loop_Inr:
  assumes "predict_loop G m images js pred = Inr pred'" and "distinct js"
  shows "shape pred' = shape pred
    \<and> (\<forall>idx. idx = [] \<or> hd idx \<notin> set js \<longrightarrow> data pred' idx = data pred idx)
    \<and> (\<forall>i \<in> set js. \<exists>logits.
           network G (variables (session m)) (np_batch_of_one (np_row images i)) = Inr logits
         \<and> (\<forall>idx. data pred' (i # idx) = (0 < data logits (0 # bcast_index (tl (shape logits)) idx))))"
  using assms
proof (induction js arbitrary: pred)
  case Nil
  then show ?case by simp
next
  case (Cons i js)
  from Cons.prems(1) obtain labels v pred1 where
    rp: "run_pred_labels G m (np_batch_of_one (np_row images i)) = Inr labels"
    and gi: "np_getitem labels 0 = Inr v"
    and si: "np_setitem pred i v = Inr pred1"
    and rest: "predict_loop G m images js pred1 = Inr pred'"
    by (auto split: sum.splits)
  from rp obtain logits where
    nw: "network G (variables (session m)) (np_batch_of_one (np_row images i)) = Inr logits"
    and lb: "labels = tensor_map (\<lambda>l. 0 < l) logits"
    by (auto simp: run_pred_labels_def split: if_splits sum.splits)
  from gi lb have v: "v = \<lparr>shape = tl (shape logits), data = (\<lambda>idx. 0 < data logits (0 # idx))\<rparr>"
    by (auto simp: np_getitem_def np_row_def tensor_map_def split: list.splits if_splits)
  from si have p1: "shape pred1 = shape pred"
    "data pred1 = (\<lambda>idx. if idx \<noteq> [] \<and> hd idx = i
                         then data v (bcast_index (shape v) (tl idx)) else data pred idx)"
    by (auto simp: np_setitem_def split: list.splits if_splits)
  from Cons.prems(2) have d: "distinct js" and ni: "i \<notin> set js" by simp_all
  note ih = Cons.IH[OF rest d]
  from ih p1 have 1: "shape pred' = shape pred" by simp
  have 2: "data pred' idx = data pred idx" if "idx = [] \<or> hd idx \<notin> set (i # js)" for idx
    using that ih p1 by auto
  from ih ni have "data pred' (i # idx) = data pred1 (i # idx)" for idx by simp
  with p1 v have 3: "data pred' (i # idx) = (0 < data logits (0 # bcast_index (tl (shape logits)) idx))" for idx
    by simp
  from 1 2 3 nw ih show ?case by auto
qed

lemma np_take_row:
  assumes "np_take a idxs = Inr a'" and "i < length idxs"
  shows "np_row a' i = np_row a (wrap_index (hd (shape a)) (idxs ! i))"
  using assms by (auto simp: np_take_def np_row_def split: list.splits if_splits)

lemma predict_Inr_rows:
  assumes pr: "predict G m junk out images indices' = Inr (pred, out')"
    and conf: "tl (shape images) = [height m, width m, depth m]"
    and net: "\<forall>vars x logits. network G vars x = Inr logits \<longrightarrow> shape logits = butlast (shape x)"
    and sel: "sel = (case indices' of None \<Rightarrow> map int [0..<hd (shape images)] | Some idxs \<Rightarrow> idxs)"
  shows "shape pred = [length sel, height m, width m]
    \<and> (\<forall>i < length sel. \<exists>logits.
          network G (variables (session m))
            (np_batch_of_one (np_row images (wrap_index (hd (shape images)) (sel ! i)))) = Inr logits
        \<and> (\<forall>y < height m. \<forall>x < width m. data pred [i, y, x] = (0 < data logits [0, y, x])))
    \<and> out' = out @ [''Testing'']"
proof -
  from pr have s: "(case indices' of None \<Rightarrow> (case np_len images of Inl e \<Rightarrow> Inl e
                                                | Inr n \<Rightarrow> Inr (map int [0..<n]))
                     | Some idxs \<Rightarrow> np_r idxs) = Inr sel"
    unfolding sel
    by (cases indices')
       (auto simp: predict_def np_len_def np_r_def split: sum.splits list.splits if_splits)
  with pr obtain images' n where
    tk: "np_take images sel = Inr images'"
    and nl: "np_len images' = Inr n"
    and lp: "predict_loop G m images' [0..<n] (np_empty (butlast (shape images')) junk) = Inr pred"
    and o: "out' = out @ [''Testing'']"
    by (auto simp: predict_def Let_def split: sum.splits)
  from tk conf have sh': "shape images' = [length sel, height m, width m, depth m]"
    by (auto simp: np_take_def split: list.splits if_splits)
  with nl have n: "n = length sel" by (simp add: np_len_def)
  note pl = predict_loop_Inr[OF lp distinct_upt]
  from pl sh' have 1: "shape pred = [length sel, height m, width m]"
    by (simp add: np_empty_def)
  have 2: "\<exists>logits.
          network G (variables (session m))
            (np_batch_of_one (np_row images (wrap_index (hd (shape images)) (sel ! i)))) = Inr logits
        \<and> (\<forall>y < height m. \<forall>x < width m. data pred [i, y, x] = (0 < data logits [0, y, x]))"
    if i: "i < length sel" for i
  proof -
    from i n have "i \<in> set [0..<n]" by simp
    with pl obtain logits where
      nw: "network G (variables (session m)) (np_batch_of_one (np_row images' i)) = Inr logits"
      and dt: "\<And>idx. data pred (i # idx) = (0 < data logits (0 # bcast_index (tl (shape logits)) idx))"
      by blast
    from net nw have "shape logits = butlast (shape (np_batch_of_one (np_row images' i)))" by blast
    with sh' have sl: "tl (shape logits) = [height m, width m]"
      by (simp add: np_batch_of_one_def np_row_def)
    have "data pred [i, y, x] = (0 < data logits [0, y, x])" if "y < height m" "x < width m" for y x
    proof -
      from that have "in_range [height m, width m] [y, x]" by (simp add: in_range_def)
      from bcast_index_in_range[OF this] dt[of "[y, x]"] sl show ?thesis by simp
    qed
    with nw np_take_row[OF tk i] show ?thesis by auto
  qed
  from 1 2 o show ?thesis by blast
qed

lemma np_setitem_shape: "np_setitem a i v = Inr a' \<Longrightarrow> shape a' = shape a"
  by (auto simp: np_setitem_def split: list.splits if_splits)

lemma predict_loop_returns:
  assumes net: "\<forall>vars x. feed_ok [height m, width m, depth m] x \<longrightarrow>
                  (\<exists>logits. network G vars x = Inr logits \<and> shape logits = butlast (shape x))"
    and im: "shape images = n # [height m, width m, depth m]"
    and pr: "shape pred = [n, height m, width m]"
    and js: "\<forall>i \<in> set js. i < n"
  shows "\<exists>pred'. predict_loop G m images js pred = Inr pred'"
  using pr js
proof (induction js arbitrary: pred)
  case Nil
  show ?case by simp
next
  case (Cons i js)
  let ?x = "np_batch_of_one (np_row images i)"
  from im have sx: "shape ?x = [1, height m, width m, depth m]"
    by (simp add: np_batch_of_one_def np_row_def)
  then have fo: "feed_ok [height m, width m, depth m] ?x" by (simp add: feed_ok_def)
  with net obtain logits where
    nw: "network G (variables (session m)) ?x = Inr logits" and sl: "shape logits = butlast (shape ?x)"
    by blast
  from sl sx have sl': "shape logits = [1, height m, width m]" by simp
  from fo nw have rp: "run_pred_labels G m ?x = Inr (tensor_map (\<lambda>l. 0 < l) logits)"
    by (simp add: run_pred_labels_def)
  from sl' have gi: "np_getitem (tensor_map (\<lambda>l. 0 < l) logits) 0
                       = Inr (np_row (tensor_map (\<lambda>l. 0 < l) logits) 0)"
    and sv: "shape (np_row (tensor_map (\<lambda>l. 0 < l) logits) 0) = [height m, width m]"
    by (simp_all add: np_getitem_def np_row_def tensor_map_def)
  from Cons.prems have i: "i < n" and rest: "\<forall>i \<in> set js. i < n" by simp_all
  from Cons.prems(1) i sv broadcast_shape_refl[of "[height m, width m]"]
  obtain pred1 where si: "np_setitem pred i (np_row (tensor_map (\<lambda>l. 0 < l) logits) 0) = Inr pred1"
    by (simp add: np_setitem_def)
  from np_setitem_shape[OF si] Cons.prems(1) have "shape pred1 = [n, height m, width m]" by simp
  from Cons.IH[OF this rest] rp gi si show ?case by simp
qed

lemma predict_returns:
  assumes net: "\<forall>vars x. feed_ok [height m, width m, depth m] x \<longrightarrow>
                  (\<exists>logits. network G vars x = Inr logits \<and> shape logits = butlast (shape x))"
    and im: "shape images = n # [height m, width m, depth m]"
    and ix: "case indices' of None \<Rightarrow> True
             | Some idxs \<Rightarrow> idxs \<noteq> [] \<and> (\<forall>j \<in> set idxs. - int n \<le> j \<and> j < int n)"
  shows "\<exists>pred. predict G m junk out images indices' = Inr (pred, out @ [''Testing''])"
proof -
  let ?sel = "case indices' of None \<Rightarrow> map int [0..<n] | Some idxs \<Rightarrow> idxs"
  from im ix have s: "(case indices' of None \<Rightarrow> (case np_len images of Inl e \<Rightarrow> Inl e
                                                | Inr n \<Rightarrow> Inr (map int [0..<n]))
                     | Some idxs \<Rightarrow> np_r idxs) = Inr ?sel"
    by (cases indices') (auto simp: np_len_def np_r_def)
  from ix have v: "\<forall>j \<in> set ?sel. - int n \<le> j \<and> j < int n" by (cases indices') auto
  from np_take_ok[OF im v] obtain images' where
    tk: "np_take images ?sel = Inr images'"
    and sh: "shape images' = length ?sel # [height m, width m, depth m]"
    by blast
  from sh have nl: "np_len images' = Inr (length ?sel)" by (simp add: np_len_def)
  from sh have sp: "shape (np_empty (butlast (shape images')) junk) = [length ?sel, height m, width m]"
    by (simp add: np_empty_def)
  have "\<forall>i \<in> set [0..<length ?sel]. i < length ?sel" by simp
  from predict_loop_returns[OF net sh sp this] obtain pred where
    "predict_loop G m images' [0..<length ?sel] (np_empty (butlast (shape images')) junk) = Inr pred"
    by blast
  with s tk nl show ?thesis by (simp add: predict_def Let_def)
qed

lemma saver_restore_after_save:
  assumes d: "distinct (map fst (variables s))"
    and names: "map fst (variables s2) = map fst (variables s)"
    and shapes: "map (\<lambda>(name, v). shape v) (variables s2) = map (\<lambda>(name, v). shape v) (variables s)"
  shows "saver_restore (fs(location \<mapsto> s)) s2 location = Inr s"
proof -
  let ?vs = "variables s" and ?vs2 = "variables s2"
  from names have len: "length ?vs2 = length ?vs" by (metis length_map)
  have look: "map_of ?vs (fst (?vs2 ! i)) = Some (snd (?vs ! i))" if "i < length ?vs" for i
  proof -
    from names that len have "fst (?vs2 ! i) = fst (?vs ! i)" by (metis nth_map)
    moreover from d that have "map_of ?vs (fst (?vs ! i)) = Some (snd (?vs ! i))"
      by (metis map_of_is_SomeI nth_mem prod.collapse)
    ultimately show ?thesis by simp
  qed
  have shp: "shape (snd (?vs2 ! i)) = shape (snd (?vs ! i))" if "i < length ?vs" for i
  proof -
    from shapes that len have "(\<lambda>(name, v). shape v) (?vs2 ! i) = (\<lambda>(name, v). shape v) (?vs ! i)"
      by (metis nth_map)
    then show ?thesis by (simp add: case_prod_beta)
  qed
  have ok: "list_all (\<lambda>(name, v). case map_of ?vs name of None \<Rightarrow> False
                                   | Some v' \<Rightarrow> shape v' = shape v) ?vs2"
    unfolding list_all_length
  proof (intro allI impI)
    fix i assume "i < length ?vs2"
    with len have i: "i < length ?vs" by simp
    from look[OF i] shp[OF i]
    show "case ?vs2 ! i of (name, v) \<Rightarrow> (case map_of ?vs name of None \<Rightarrow> False
                                   | Some v' \<Rightarrow> shape v' = shape v)"
      by (simp add: case_prod_beta)
  qed
  have vals: "map (\<lambda>(name, v). (name, the (map_of ?vs name))) ?vs2 = ?vs"
  proof (rule nth_equalityI)
    show "length (map (\<lambda>(name, v). (name, the (map_of ?vs name))) ?vs2) = length ?vs"
      using len by simp
    fix i assume "i < length (map (\<lambda>(name, v). (name, the (map_of ?vs name))) ?vs2)"
    with len have i: "i < length ?vs" by simp
    from names i len have "fst (?vs2 ! i) = fst (?vs ! i)" by (metis nth_map)
    with look[OF i] i len
    show "map (\<lambda>(name, v). (name, the (map_of ?vs name))) ?vs2 ! i = ?vs ! i"
      by (simp add: case_prod_beta)
  qed
  from ok vals show ?thesis by (simp add: saver_restore_def)
qed

section \<open>Properties of tfmodel.py\<close>

text \<open>
  C3. With \<open>E\<close> epochs, batch size \<open>B > 0\<close> and \<open>N\<close> working indices, \<^verbatim>\<open>train\<close> returns
  whenever the images and labels have the extents of the model, every index is within the
  image count, the log directory can be written and no run of the optimizer fails. For every
  call that returns: there are exactly \<open>E\<close> passes; the order of pass \<open>k\<close> is a shuffle of
  the order of the pass before it (of the working indices for the first), made with draws
  that no earlier pass has used, and is a permutation of the working indices; each pass cuts
  its order into \<open>(N + B - 1) div B\<close> consecutive batches, all of size \<open>B\<close> but the last,
  which has size \<open>N mod B\<close>, or \<open>B\<close> when that is 0; the \<^verbatim>\<open>session.run\<close> requests
  are exactly these batches in this order. The optimizer runs once for every batch: the
  sessions \<open>ss\<close> lead from the session before the call to the session after it, and the
  run for batch \<open>k\<close> is given the images and labels of that batch and the session \<open>ss ! k\<close>,
  and leaves the new values of the variables and \<^verbatim>\<open>step\<close> raised by one, in 32-bit
  arithmetic, in \<open>ss ! Suc k\<close>. The writer keeps its earlier records and receives one record
  for every batch, in this order: the summary of that run with the value of
  \<^verbatim>\<open>step\<close> after it.
\<close>

theorem train_epochs_and_batches:
  assumes E: "E = (case epochs' of None \<Rightarrow> epochs m | Some e \<Rightarrow> e)"
    and B: "B = (case batch_size' of None \<Rightarrow> batch_size m | Some b \<Rightarrow> b)"
    and Bpos: "0 < B"
    and idxs: "idxs = (case indices' of None \<Rightarrow> map int [0..<hd (shape images)]
                                       | Some a \<Rightarrow> heap w ! a)"
    and N: "N = length idxs"
  shows "((\<forall>s x y. \<exists>r. train_op G s x y = Inr r)
          \<and> can_write w (log_path m)
          \<and> shape images = n # [height m, width m, depth m]
          \<and> shape labels = n # [height m, width m]
          \<and> (case indices' of None \<Rightarrow> True | Some a \<Rightarrow> a < length (heap w))
          \<and> (\<forall>j \<in> set idxs. - int n \<le> j \<and> j < int n)
         \<longrightarrow> (\<exists>m' w'. train G m w images labels indices' epochs' batch_size' = Inr (m', w')))
    \<and> (\<forall>m' w'. train G m w images labels indices' epochs' batch_size' = Inr (m', w') \<longrightarrow>
          length (epoch_orders (random w) idxs E) = E
        \<and> (\<forall>k < E. epoch_orders (random w) idxs E ! k
                      = fst (shuffle (rng_after (random w) idxs k)
                               (last (idxs # take k (epoch_orders (random w) idxs E))))
                  \<and> pos (rng_after (random w) idxs k) = pos (random w) + k * (N - 1))
        \<and> (\<forall>ord \<in> set (epoch_orders (random w) idxs E).
              mset ord = mset idxs
            \<and> concat (chunks ord B) = ord
            \<and> length (chunks ord B) = (N + B - 1) div B
            \<and> (\<forall>c \<in> set (butlast (chunks ord B)). length c = B)
            \<and> (0 < N \<longrightarrow> length (last (chunks ord B)) = (if N mod B = 0 then B else N mod B)))
        \<and> fed w' = fed w @ concat (map (\<lambda>ord. chunks ord B) (epoch_orders (random w) idxs E))
        \<and> take (length (writer w)) (writer w') = writer w
        \<and> length (writer w') = length (writer w) + E * ((N + B - 1) div B)
        \<and> (\<exists>ss. length ss = Suc (E * ((N + B - 1) div B))
              \<and> hd ss = session m \<and> last ss = session m'
              \<and> (\<forall>k < E * ((N + B - 1) div B). \<exists>x y summary.
                     np_take images (fed w' ! (length (fed w) + k)) = Inr x
                   \<and> np_take labels (fed w' ! (length (fed w) + k)) = Inr y
                   \<and> train_op G (ss ! k) x y = Inr (summary, variables (ss ! Suc k))
                   \<and> step (ss ! Suc k) = step (ss ! k) + 1
                   \<and> writer w' ! (length (writer w) + k) = (summary, sint (step (ss ! Suc k)))))
        \<and> step (session m') = step (session m) + of_nat (E * ((N + B - 1) div B))
        \<and> pos (random w') = pos (random w) + E * (N - 1))"
    (is "(?valid \<longrightarrow> ?returns) \<and> (\<forall>m' w'. _ \<longrightarrow> ?props m' w')")
proof (rule conjI)
  show "?valid \<longrightarrow> ?returns"
  proof (rule impI)
    assume a: ?valid
    then have ix: "case indices' of None \<Rightarrow> True
               | Some a \<Rightarrow> a < length (heap w) \<and> (\<forall>j \<in> set (heap w ! a). - int n \<le> j \<and> j < int n)"
      unfolding idxs by (cases indices') simp_all
    from a have ops: "\<forall>s x y. \<exists>r. train_op G s x y = Inr r"
      and im: "shape images = n # [height m, width m, depth m]"
      and lb: "shape labels = n # [height m, width m]"
      and cw: "can_write w (log_path m)" by blast+
    from train_returns[OF ops im lb ix cw] show ?returns .
  qed
next
  show "\<forall>m' w'. train G m w images labels indices' epochs' batch_size' = Inr (m', w') \<longrightarrow> ?props m' w'"
  proof (intro allI impI)
    fix m' w'
    assume tr: "train G m w images labels indices' epochs' batch_size' = Inr (m', w')"
    show "?props m' w'" by (rule train_Inr_batches[OF tr E B Bpos idxs N])
  qed
qed

text \<open>
  An instance: three indices, two epochs, batch size 2, from a session whose \<^verbatim>\<open>step\<close>
  is 2147483646. The two passes use the orders \<open>[2, 0, 1]\<close> and \<open>[0, 1, 2]\<close>; the four
  records carry the number of frames of their batch and the value of \<^verbatim>\<open>step\<close>, which
  wraps around at the second; the four steps raise the threshold from \<open>1 / 2\<close> by 2, 1, 2
  and 1.
\<close>

theorem train_epochs_and_batches_witness:
  "\<not> isl (train example_graph example_model example_world example_images example_labels
            (Some 0) (Some 2) (Some 2))
   \<and> fed (snd (projr (train example_graph example_model example_world example_images
                          example_labels (Some 0) (Some 2) (Some 2))))
       = [[2, 0], [1], [0, 1], [2]]
   \<and> length (writer (snd (projr (train example_graph example_model example_world example_images
                          example_labels (Some 0) (Some 2) (Some 2))))) = 4
   \<and> writer (snd (projr (train example_graph example_model example_world example_images
                          example_labels (Some 0) (Some 2) (Some 2)))) ! 0 = (2, 2147483647)
   \<and> writer (snd (projr (train example_graph example_model example_world example_images
                          example_labels (Some 0) (Some 2) (Some 2)))) ! 1 = (1, - 2147483648)
   \<and> writer (snd (projr (train example_graph example_model example_world example_images
                          example_labels (Some 0) (Some 2) (Some 2)))) ! 2 = (2, - 2147483647)
   \<and> writer (snd (projr (train example_graph example_model example_world example_images
                          example_labels (Some 0) (Some 2) (Some 2)))) ! 3 = (1, - 2147483646)
   \<and> map (\<lambda>(name, v). (name, data v []))
       (variables (session (fst (projr (train example_graph example_model example_world
                          example_images example_labels (Some 0) (Some 2) (Some 2))))))
       = [(''threshold'', 13 / 2)]
   \<and> sint (step (session (fst (projr (train example_graph example_model example_world
                          example_images example_labels (Some 0) (Some 2) (Some 2))))))
       = - 2147483646"
proof -
  let ?res = "train example_graph example_model example_world example_images example_labels
                (Some 0) (Some 2) (Some 2)"
  let ?bs = "[[2, 0], [1], [0, 1], [2 :: int]]"
  have E: "(2::nat) = (case Some 2 of None \<Rightarrow> epochs example_model | Some e \<Rightarrow> e)" by simp
  have B: "(2::nat) = (case Some 2 of None \<Rightarrow> batch_size example_model | Some b \<Rightarrow> b)" by simp
  have Bpos: "(0::nat) < 2" by simp
  have idxs: "[0, 1, 2] = (case Some 0 of None \<Rightarrow> map int [0..<hd (shape example_images)]
                            | Some a \<Rightarrow> heap example_world ! a)"
    by (simp add: example_world_def)
  have N: "(3::nat) = length [0, 1, 2 :: int]" by simp
  note t = train_epochs_and_batches[OF E B Bpos idxs N, where G = example_graph
             and n = 3 and labels = example_labels]
  have valid: "(\<forall>s x y. \<exists>r. train_op example_graph s x y = Inr r)
          \<and> can_write example_world (log_path example_model)
          \<and> shape example_images = 3 # [height example_model, width example_model, depth example_model]
          \<and> shape example_labels = 3 # [height example_model, width example_model]
          \<and> (case Some 0 of None \<Rightarrow> True | Some a \<Rightarrow> a < length (heap example_world))
          \<and> (\<forall>j \<in> set [0, 1, 2]. - int 3 \<le> j \<and> j < int 3)"
    by (simp add: example_graph_def example_images_def example_labels_def example_model_def
        example_world_def)
  with t have ex: "\<exists>m' w'. ?res = Inr (m', w')" by blast
  then have ok: "\<not> isl ?res" by auto
  then have r: "?res = Inr (fst (projr ?res), snd (projr ?res))" by (cases ?res) auto
  have rw: "random example_world = \<lparr>draws = (\<lambda>k. k + 1), pos = 0\<rparr>" "fed example_world = []"
    "writer example_world = []"
    by (simp_all add: example_world_def)
  have T: "2 * ((3 + 2 - 1) div 2) = (4::nat)" by simp
  note props = conjunct2[OF t, rule_format, OF r, unfolded T rw example_orders]
  from props have f: "fed (snd (projr ?res)) = ?bs"
    by (simp add: example_chunks)
  from props have lw: "length (writer (snd (projr ?res))) = 4" by simp
  from props obtain ss where
    len: "length ss = Suc 4" and hd: "hd ss = session example_model"
    and lst: "last ss = session (fst (projr ?res))"
    and steps: "\<forall>k < 4. \<exists>x y summary.
                  np_take example_images (fed (snd (projr ?res)) ! (length ([] :: int list list) + k)) = Inr x
                \<and> np_take example_labels (fed (snd (projr ?res)) ! (length ([] :: int list list) + k)) = Inr y
                \<and> train_op example_graph (ss ! k) x y = Inr (summary, variables (ss ! Suc k))
                \<and> step (ss ! Suc k) = step (ss ! k) + 1
                \<and> writer (snd (projr ?res)) ! (length ([] :: (nat \<times> int) list) + k)
                    = (summary, sint (step (ss ! Suc k)))"
    by blast
  have stepk: "variables (ss ! Suc k)
                 = map (\<lambda>(name, v). (name, tensor_map (\<lambda>t. t + real (length (?bs ! k))) v))
                     (variables (ss ! k))
             \<and> step (ss ! Suc k) = step (ss ! k) + 1
             \<and> writer (snd (projr ?res)) ! k = (length (?bs ! k), sint (step (ss ! k) + 1))"
    if k: "k < 4" for k
  proof -
    from steps k obtain x y summary where
      tx: "np_take example_images (?bs ! k) = Inr x"
      and tr: "train_op example_graph (ss ! k) x y = Inr (summary, variables (ss ! Suc k))"
      and st: "step (ss ! Suc k) = step (ss ! k) + 1"
      and wr: "writer (snd (projr ?res)) ! k = (summary, sint (step (ss ! Suc k)))"
      unfolding f by auto
    from tx have hx: "hd (shape x) = length (?bs ! k)"
      by (auto simp: np_take_def example_images_def split: if_splits)
    have "train_op example_graph (ss ! k) x y
            = Inr (hd (shape x),
                   map (\<lambda>(name, v). (name, tensor_map (\<lambda>t. t + real (hd (shape x))) v))
                     (variables (ss ! k)))"
      by (simp add: example_graph_def)
    with tr have "summary = hd (shape x)"
      and "variables (ss ! Suc k)
             = map (\<lambda>(name, v). (name, tensor_map (\<lambda>t. t + real (hd (shape x))) v))
                 (variables (ss ! k))"
      by auto
    with hx st wr show ?thesis by simp
  qed
  from len hd have s0: "ss ! 0 = session example_model" by (cases ss) simp_all
  from len have "ss \<noteq> []" by auto
  from last_conv_nth[OF this] len lst have s4: "ss ! 4 = session (fst (projr ?res))"
    by simp
  have k0: "(0::nat) < 4" and k1: "(1::nat) < 4" and k2: "(2::nat) < 4" and k3: "(3::nat) < 4"
    by simp_all
  have S: "Suc 0 = 1" "Suc 1 = 2" "Suc 2 = 3" "Suc 3 = 4" by simp_all
  note a0 = stepk[OF k0, unfolded s0 S] and a1 = stepk[OF k1, unfolded S]
    and a2 = stepk[OF k2, unfolded S] and a3 = stepk[OF k3, unfolded S s4]
  have st0: "step (session example_model) = 2147483646" by (simp add: example_model_def)
  from a0 st0 have b1: "step (ss ! 1) = 2147483647"
    and w0: "writer (snd (projr ?res)) ! 0 = (2, 2147483647)" by simp_all
  from a1 b1 have b2: "step (ss ! 2) = 2147483648"
    and w1: "writer (snd (projr ?res)) ! 1 = (1, - 2147483648)" by simp_all
  from a2 b2 have b3: "step (ss ! 3) = 2147483649"
    and w2: "writer (snd (projr ?res)) ! 2 = (2, - 2147483647)" by simp_all
  from a3 b3 have b4: "step (session (fst (projr ?res))) = 2147483650"
    and w3: "writer (snd (projr ?res)) ! 3 = (1, - 2147483646)" by simp_all
  from b4 have sf: "sint (step (session (fst (projr ?res)))) = - 2147483646" by simp
  have v0: "variables (session example_model) = [(''threshold'', const_tensor [] (1 / 2))]"
    by (simp add: example_model_def)
  from a0 a1 a2 a3 v0
  have vf: "map (\<lambda>(name, v). (name, data v []))
              (variables (session (fst (projr ?res)))) = [(''threshold'', 13 / 2)]"
    by (simp add: tensor_map_def const_tensor_def)
  from ok f lw w0 w1 w2 w3 vf sf show ?thesis by simp
qed

text \<open>
  C4. The claim: for a selection of \<open>K\<close> indices the result holds exactly \<open>K\<close> maps and
  has shape \<open>[K, height, width]\<close>. For every selection that is not empty, and for the
  default selection of all images, \<^verbatim>\<open>predict\<close> does so (\<open>predict_returns\<close>,
  \<open>predict_Inr_rows\<close>): it returns, row \<open>i\<close> of the result belongs to the \<open>i\<close>-th
  selected index, the network has been run on that image alone, as a batch of one, and
  every element of the row says whether the logit of its pixel is greater than 0. For the
  empty selection, \<open>K = 0\<close>, the two paths differ. With \<^verbatim>\<open>indices=None\<close> on an array
  of no images the result is the empty array of shape \<open>[0, height, width]\<close>. With
  \<^verbatim>\<open>indices=[]\<close> the expression \<^verbatim>\<open>np.r_[tuple(indices)]\<close> has nothing to
  join and raises a \<^verbatim>\<open>ValueError\<close>, before any image is selected.
\<close>

theorem predict_empty_selection_raises:
  "predict example_graph example_model (\<lambda>idx. False) [] example_images (Some [])
     = Inl (ValueError ''need at least one array to concatenate'')
   \<and> \<not> isl (predict example_graph example_model (\<lambda>idx. False) [] example_no_images None)
   \<and> shape (fst (projr (predict example_graph example_model (\<lambda>idx. False) []
                           example_no_images None))) = [0, 1, 2]
   \<and> \<not> isl (predict example_graph example_model (\<lambda>idx. False) [] example_images (Some [2, 0]))
   \<and> shape (fst (projr (predict example_graph example_model (\<lambda>idx. False) []
                           example_images (Some [2, 0])))) = [2, 1, 2]"
proof (intro conjI)
  show "predict example_graph example_model (\<lambda>idx. False) [] example_images (Some [])
          = Inl (ValueError ''need at least one array to concatenate'')"
    by (simp add: predict_def np_r_def)
qed code_simp+

text \<open>
  C9. When saving a model under \<open>path\<close> has succeeded, it has written the session's values
  at \<open>path/model.ckpt\<close> and nowhere else; loading from \<open>path\<close> into a model of the same
  network (the same variable names and shapes, whatever their current values) reads that
  location only and gives back the model as it was saved, so that every prediction is the
  one the saved model makes.
\<close>

theorem save_load_roundtrip:
  assumes sv: "save_model writable m fs path = Inr fs'"
    and d: "distinct (map fst (variables (session m)))"
    and names: "map fst (variables s2) = map fst (variables (session m))"
    and shapes: "map (\<lambda>(name, v). shape v) (variables s2)
                   = map (\<lambda>(name, v). shape v) (variables (session m))"
  shows "fs' = fs(path @ ''/model.ckpt'' \<mapsto> session m)
    \<and> load_model (m\<lparr>session := s2\<rparr>) fs' path = Inr m
    \<and> (\<forall>fs''. fs'' (path @ ''/model.ckpt'') = fs' (path @ ''/model.ckpt'') \<longrightarrow>
          load_model (m\<lparr>session := s2\<rparr>) fs'' path = Inr m)
    \<and> (\<forall>m3 G junk out images indices'.
          load_model (m\<lparr>session := s2\<rparr>) fs' path = Inr m3 \<longrightarrow>
            predict G m3 junk out images indices' = predict G m junk out images indices')"
proof -
  from sv have fs': "fs' = fs(path @ ''/model.ckpt'' \<mapsto> session m)"
    by (auto simp: save_model_def saver_save_def split: if_splits)
  have ld: "load_model (m\<lparr>session := s2\<rparr>) fs'' path = Inr m"
    if "fs'' (path @ ''/model.ckpt'') = Some (session m)" for fs''
  proof -
    from that have "fs'' = fs''(path @ ''/model.ckpt'' \<mapsto> session m)" by auto
    with saver_restore_after_save[OF d names shapes, of fs'' "path @ ''/model.ckpt''"]
    have "saver_restore fs'' s2 (path @ ''/model.ckpt'') = Inr (session m)" by simp
    then show ?thesis by (simp add: load_model_def)
  qed
  from fs' ld show ?thesis by simp
qed

text \<open>An instance: the variable has been changed between saving and loading.\<close>

theorem save_load_roundtrip_witness:
  "save_model (\<lambda>p. True) example_model Map.empty ''run1''
     = Inr [''run1/model.ckpt'' \<mapsto> session example_model]
   \<and> distinct (map fst (variables (session example_model)))
   \<and> map fst (variables example_retrained) = map fst (variables (session example_model))
   \<and> load_model (example_model\<lparr>session := example_retrained\<rparr>)
        [''run1/model.ckpt'' \<mapsto> session example_model] ''run1'' = Inr example_model"
proof -
  have sv: "save_model (\<lambda>p. True) example_model Map.empty ''run1''
              = Inr [''run1/model.ckpt'' \<mapsto> session example_model]"
    by (simp add: save_model_def saver_save_def)
  have d: "distinct (map fst (variables (session example_model)))"
    by (simp add: example_model_def)
  have names: "map fst (variables example_retrained) = map fst (variables (session example_model))"
    by (simp add: example_model_def example_retrained_def)
  have shapes: "map (\<lambda>(name, v). shape v) (variables example_retrained)
                  = map (\<lambda>(name, v). shape v) (variables (session example_model))"
    by (simp add: example_model_def example_retrained_def const_tensor_def)
  from save_load_roundtrip[OF sv d names shapes]
  have "load_model (example_model\<lparr>session := example_retrained\<rparr>)
          [''run1/model.ckpt'' \<mapsto> session example_model] ''run1'' = Inr example_model"
    by blast
  with sv d names show ?thesis by blast
qed

text \<open>
  C10. For every call of \<^verbatim>\<open>train\<close> with the address of a list as \<open>indices\<close> that
  returns: the caller's list, and every other list that existed, is as it was; the list that
  was shuffled is a new one, a permutation of the caller's.
\<close>

theorem train_keeps_callers_indices:
  assumes "train G m w images labels (Some a) epochs' batch_size' = Inr (m', w')"
  shows "a < length (heap w)
    \<and> heap w' ! a = heap w ! a
    \<and> take (length (heap w)) (heap w') = heap w
    \<and> length (heap w') = Suc (length (heap w))
    \<and> mset (heap w' ! length (heap w)) = mset (heap w ! a)"
proof -
  let ?w1 = "print [''Training''] (w\<lparr>heap := heap w @ [heap w ! a]\<rparr>)"
  let ?p = "length (heap w)"
  from train_Inr[OF assms] have a: "a < ?p"
    and re: "run_epochs G images labels ?p
               (case batch_size' of None \<Rightarrow> batch_size m | Some b \<Rightarrow> b)
               [0..<(case epochs' of None \<Rightarrow> epochs m | Some e \<Rightarrow> e)] (m, ?w1) = Inr (m', w')"
    by simp_all
  have p: "?p < length (heap ?w1)" by simp
  from run_epochs_heap[OF re p] have l: "length (heap w') = Suc ?p"
    and q: "\<And>q. q \<noteq> ?p \<Longrightarrow> heap w' ! q = (heap w @ [heap w ! a]) ! q"
    and ms: "mset (heap w' ! ?p) = mset (heap w ! a)"
    by simp_all
  from q[of a] a have 1: "heap w' ! a = heap w ! a" by (simp add: nth_append)
  have 2: "take ?p (heap w') = heap w"
  proof (rule nth_equalityI)
    show "length (take ?p (heap w')) = length (heap w)" using l by simp
    fix i assume "i < length (take ?p (heap w'))"
    then have "i < ?p" by simp
    with q[of i] show "take ?p (heap w') ! i = heap w ! i" by (simp add: nth_append)
  qed
  from a 1 2 l ms show ?thesis by simp
qed

text \<open>An instance: the caller's list is still \<open>[0, 1, 2]\<close> after an epoch.\<close>

theorem train_keeps_callers_indices_witness:
  "\<not> isl (train example_graph example_model example_world example_images example_labels
            (Some 0) (Some 1) (Some 2))
   \<and> heap example_world ! 0 = [0, 1, 2]
   \<and> heap (snd (projr (train example_graph example_model example_world example_images
                          example_labels (Some 0) (Some 1) (Some 2)))) ! 0 = [0, 1, 2]
   \<and> heap (snd (projr (train example_graph example_model example_world example_images
                          example_labels (Some 0) (Some 1) (Some 2)))) ! 1 = [2, 0, 1]"
proof -
  let ?res = "train example_graph example_model example_world example_images example_labels
                (Some 0) (Some 1) (Some 2)"
  note ok = example_train_one_epoch(1)
  then have r: "?res = Inr (fst (projr ?res), snd (projr ?res))" by (cases ?res) auto
  have h: "heap example_world = [[0, 1, 2]]" by (simp add: example_world_def)
  from train_keeps_callers_indices[OF r]
  have "heap (snd (projr ?res)) ! 0 = heap example_world ! 0" by blast
  with ok h example_train_one_epoch(2) show ?thesis by simp
qed

end
